theory Spec2Isabelle
  imports Main
begin

section \<open>Go runtime notions used by proxy/proxy.go\<close>

text \<open>
  Go errors and panic values are identified by their message. A call of a Go function
  either returns, or panics, or never comes back (it blocks forever, or the process is
  gone before it can): the three cases are kept apart by \<open>outcome\<close>.
\<close>

type_synonym error = string
type_synonym panic = string
type_synonym client_options = string

datatype 'a outcome = Returns 'a | Panics panic | Never

text \<open>
  \<open>p.quit\<close>, \<open>p.kill\<close> and the per-connection \<open>done\<close> are channels that are never
  sent on: the only operation that changes them is \<open>close\<close>. A receive \<open><-c\<close> blocks
  while the channel is \<open>Open\<close> and proceeds, any number of times, once it is \<open>Closed\<close>.
  Closing a closed channel panics; the runtime performs \<open>close\<close> under the channel's
  lock, so it is one atomic step.
\<close>

datatype chan = Open | Closed

definition close_chan :: "chan \<Rightarrow> panic + chan" where
  "close_chan c = (case c of Open \<Rightarrow> Inr Closed | Closed \<Rightarrow> Inl ''close of closed channel'')"

text \<open>
  \<open>defer func() { _ = recover() }()\<close> around a body that works on the state \<open>s\<close>: a
  panic of the body is swallowed and the function returns normally. The bodies below
  panic before they change anything, so the state handed back is \<open>s\<close>.
\<close>

definition recover_discard :: "'s \<Rightarrow> 's outcome \<Rightarrow> 's outcome" where
  "recover_discard s body = (case body of Panics r \<Rightarrow> Returns s | other \<Rightarrow> other)"

text \<open>\<open>strings.Contains(s, substr)\<close>: \<open>substr\<close> occurs in \<open>s\<close> at some position.\<close>

fun has_prefix :: "string \<Rightarrow> string \<Rightarrow> bool" where
  "has_prefix s [] = True"
| "has_prefix [] (y # ys) = False"
| "has_prefix (x # xs) (y # ys) = (x = y \<and> has_prefix xs ys)"

fun Contains :: "string \<Rightarrow> string \<Rightarrow> bool" where
  "Contains [] substr = (substr = [])"
| "Contains (x # xs) substr = (has_prefix (x # xs) substr \<or> Contains xs substr)"

text \<open>\<open>time.Second\<close>, a \<open>time.Duration\<close> in nanoseconds.\<close>

definition Second :: int where
  "Second = 1000000000"

section \<open>The proxy and its two shutdown signals\<close>

definition restartSleep :: int where
  "restartSleep = 1 * Second"

text \<open>
  The fields of \<open>Proxy\<close> that \<open>proxy.go\<close> itself reads or writes. The logger, the statsd
  client and \<open>config\<close> are handed through to collaborators unread and are left out;
  \<open>failover\<close> is a pointer that may be nil.
\<close>

record Proxy =
  network :: string
  address :: string
  unlink :: bool
  ping :: bool
  opts :: client_options
  failover :: "client_options option"
  quit :: chan
  kill :: chan

text \<open>
  \<open>NewProxy\<close>. \<open>util.StatsdWithTags\<close> is not part of this file: its error, if any, is
  the parameter \<open>tags_err\<close>, and it is only called for a non-empty label.
\<close>

definition NewProxy ::
  "error option \<Rightarrow> string \<Rightarrow> string \<Rightarrow> string \<Rightarrow> bool \<Rightarrow> bool \<Rightarrow> client_options \<Rightarrow>
   client_options option \<Rightarrow> error + Proxy" where
  "NewProxy tags_err label nw addr ul pg os fo =
     (case (if label \<noteq> [] then tags_err else None) of
        Some err \<Rightarrow> Inl err
      | None \<Rightarrow> Inr \<lparr>network = nw, address = addr, unlink = ul, ping = pg, opts = os,
                     failover = fo, quit = Open, kill = Open\<rparr>)"

text \<open>\<open>Shutdown\<close>: \<open>close(p.quit)\<close> under a deferred \<open>recover()\<close>.\<close>

definition Shutdown :: "Proxy \<Rightarrow> Proxy outcome" where
  "Shutdown p =
     recover_discard p
       (case close_chan (quit p) of
          Inl r \<Rightarrow> Panics r
        | Inr c \<Rightarrow> Returns (p\<lparr>quit := c\<rparr>))"

text \<open>
  \<open>Kill\<close> calls \<open>p.Shutdown()\<close> first; only then is its own \<open>recover()\<close> deferred (so a
  panic coming out of \<open>Shutdown\<close> would not be caught here) and \<open>p.kill\<close> closed.
  \<open>Kill_close\<close> is that second half, lines 79 to 82.
\<close>

definition Kill_close :: "Proxy \<Rightarrow> Proxy outcome" where
  "Kill_close p =
     recover_discard p
       (case close_chan (kill p) of
          Inl r \<Rightarrow> Panics r
        | Inr c \<Rightarrow> Returns (p\<lparr>kill := c\<rparr>))"

definition Kill :: "Proxy \<Rightarrow> Proxy outcome" where
  "Kill p =
     (case Shutdown p of
        Returns p1 \<Rightarrow> Kill_close p1
      | Panics r \<Rightarrow> Panics r
      | Never \<Rightarrow> Never)"

subsection \<open>Concurrent callers of Shutdown and Kill\<close>

text \<open>
  Any number of goroutines may be inside \<open>Shutdown\<close> or \<open>Kill\<close> at once. The only shared
  data a call touches is the channel it closes, so a \<open>Shutdown\<close> call is one atomic step
  and a \<open>Kill\<close> call is two: its \<open>p.Shutdown()\<close>, then its own \<open>close(p.kill)\<close>. A caller
  is the call it makes together with the steps it has still to take; a scheduler picks
  which caller moves next. \<open>effective\<close> lists, in order, the steps that changed a
  channel; \<open>raised\<close> lists the panics that came out of a call to its caller.
\<close>

datatype call = CallShutdown | CallKill

datatype sigstep = StepShutdown | StepCloseKill

fun steps_of :: "call \<Rightarrow> sigstep list" where
  "steps_of CallShutdown = [StepShutdown]"
| "steps_of CallKill = [StepShutdown, StepCloseKill]"

fun exec_sigstep :: "sigstep \<Rightarrow> Proxy \<Rightarrow> Proxy outcome" where
  "exec_sigstep StepShutdown p = Shutdown p"
| "exec_sigstep StepCloseKill p = Kill_close p"

record sstate =
  sp :: Proxy
  callers :: "(call \<times> sigstep list) list"
  effective :: "sigstep list"
  raised :: "panic list"

datatype saction = Enter call | Advance nat

definition sinit :: "Proxy \<Rightarrow> sstate" where
  "sinit p = \<lparr>sp = p, callers = [], effective = [], raised = []\<rparr>"

fun sstep :: "saction \<Rightarrow> sstate \<Rightarrow> sstate" where
  "sstep (Enter c) s = s\<lparr>callers := callers s @ [(c, steps_of c)]\<rparr>"
| "sstep (Advance i) s =
     (if i < length (callers s) then
        (case callers s ! i of
           (c, []) \<Rightarrow> s
         | (c, st # rest) \<Rightarrow>
             (case exec_sigstep st (sp s) of
                Returns p' \<Rightarrow>
                  s\<lparr>sp := p', callers := (callers s)[i := (c, rest)],
                    effective := effective s @ (if p' = sp s then [] else [st])\<rparr>
              | Panics r \<Rightarrow>
                  s\<lparr>callers := (callers s)[i := (c, [])], raised := raised s @ [r]\<rparr>
              | Never \<Rightarrow> s))
      else s)"

definition sexec :: "saction list \<Rightarrow> sstate \<Rightarrow> sstate" where
  "sexec acts s = foldl (\<lambda>t a. sstep a t) s acts"

section \<open>Serving: the acceptor, the sessions and the watchers\<close>

text \<open>
  What the program does to the outside world, and what its goroutines do to each
  other, is recorded as one chronological trace of events. Connections are numbered in
  the order in which \<open>accept\<close> took them. \<open>Log\<close> is a line of \<open>p.log\<close> with its
  fields; \<open>ConnLog n\<close> is a line of the logger of connection \<open>n\<close>, which is \<open>p.log\<close>
  with the remote address as a field when that address is not empty.
\<close>

datatype level = LInfo | LWarn | LError

datatype upstream = Primary | Failover

datatype goroutine = QuitWatcherG | SessionG nat | WatcherG nat | RestartG

datatype closer = BySession | ByWatcher

datatype event =
    Log level string "(string \<times> string) list"
  | ConnLog nat level string
  | MongoConnect upstream
  | MongoClose upstream
  | SysUmask nat
  | SysUnlink string
  | NetListen string string
  | ListenerClose
  | Go goroutine
  | WgAdd nat
  | WgDone nat
  | GaugeOpened nat
  | GaugeClosed nat
  | HandleConnection nat
  | ConnClose nat closer
  | CloseDone nat
  | Sleep int

record 'a result =
  events :: "event list"
  ret :: "'a outcome"

text \<open>
  One accepted connection: the socket, its \<open>done\<close> channel, and where its two
  goroutines stand. The session goroutine is lines 179 to 189, one statement per
  program counter; the watcher goroutine is lines 191 to 201.
\<close>

datatype spc = SLogAccept | SHandle | SConnClose | SLogClose | SCloseDone | SWgDone
  | SGaugeClosed | SExit

datatype wpc = WSelect | WForceClose | WExit

record session =
  sock_open :: bool
  done_ch :: chan
  spc :: spc
  wpc :: wpc

text \<open>
  The goroutine that runs \<open>accept\<close> is in the loop, or in the deferred \<open>wg.Wait()\<close> (on
  its way out with or without a panic in flight), or has left \<open>accept\<close>.
\<close>

datatype apc = ALoop | AWait "panic option" | AExit "panic option"

text \<open>
  Modelled from the spec: \<open>util.StatsdBackgroundGauge\<close>, whose source is not part of
  this file. The spec gives it as a background gauge primitive that, for a metric name
  and a set of tags, returns two callbacks, one to call on "opened" events and one on
  "closed" events, used to track the number of concurrent connections. The gauge is
  that number: \<open>opened\<close> adds one to it and \<open>closed\<close> takes one away.
\<close>

definition gauge_opened :: "int \<Rightarrow> int" where
  [simp]: "gauge_opened g = g + 1"

definition gauge_closed :: "int \<Rightarrow> int" where
  [simp]: "gauge_closed g = g - 1"

text \<open>
  The state of the process while \<open>accept\<close> runs. \<open>wg\<close> is the counter of the
  \<open>sync.WaitGroup\<close>, \<open>gauge\<close> the value of the gauge that \<open>accept\<close> created.
  \<open>crashed\<close> holds the panic that no goroutine recovered: the Go runtime then ends
  the whole program.
\<close>

record pstate =
  prx :: Proxy
  listener_open :: bool
  qw_exited :: bool
  apc :: apc
  wg :: int
  gauge :: int
  sessions :: "session list"
  trace :: "event list"
  crashed :: "panic option"

text \<open>
  What the scheduler and the outside world can do next. \<open>l.Accept()\<close> and
  \<open>handleConnection\<close> are calls into code outside this file: when and how they come
  back is the environment's choice.
\<close>

datatype accept_result = AConn | AErr error | APanic panic

datatype action =
    AcceptReturns accept_result
  | WaitReturns
  | QuitWatcher
  | SessionStep nat
  | HandlerReturns nat
  | HandlerPanics nat panic
  | WatcherStep nat bool
  | DoShutdown
  | DoKill

definition emit :: "event list \<Rightarrow> pstate \<Rightarrow> pstate" where
  "emit evs s = s\<lparr>trace := trace s @ evs\<rparr>"

definition crash :: "panic \<Rightarrow> pstate \<Rightarrow> pstate" where
  "crash r s = s\<lparr>crashed := Some r\<rparr>"

definition set_session :: "nat \<Rightarrow> session \<Rightarrow> pstate \<Rightarrow> pstate" where
  "set_session n c s = s\<lparr>sessions := (sessions s)[n := c]\<rparr>"

definition new_session :: session where
  "new_session = \<lparr>sock_open = True, done_ch = Open, spc = SLogAccept, wpc = WSelect\<rparr>"

text \<open>
  One turn of the \<open>for\<close> loop of \<open>accept\<close>, lines 158 to 201, from the moment
  \<open>l.Accept()\<close> comes back. A listener that has been closed hands out no connection
  (package \<open>net\<close>: after \<open>Close\<close>, \<open>Accept\<close> returns an error). Leaving the loop, by
  \<open>return\<close> or by a panic, runs the deferred function of lines 150 to 153, which logs
  and then waits for the wait group.
\<close>

definition accept_iteration :: "accept_result \<Rightarrow> pstate \<Rightarrow> pstate" where
  "accept_iteration r s =
     (case (if listener_open s then r
            else (case r of AConn \<Rightarrow> AErr ''use of closed network connection''
                          | other \<Rightarrow> other)) of
        APanic x \<Rightarrow>
          emit [Log LInfo ''Waiting for open connections'' []] (s\<lparr>apc := AWait (Some x)\<rparr>)
      | AErr e \<Rightarrow>
          (if quit (prx s) = Closed
           then emit [Log LInfo ''Waiting for open connections'' []] (s\<lparr>apc := AWait None\<rparr>)
           else emit [Log LError ''Failed to accept incoming connection'' [(''error'', e)]] s)
      | AConn \<Rightarrow>
          (let n = length (sessions s)
           in emit [WgAdd n, GaugeOpened n, Go (SessionG n), Go (WatcherG n)]
                (s\<lparr>wg := wg s + 1, gauge := gauge_opened (gauge s),
                   sessions := sessions s @ [new_session]\<rparr>)))"

text \<open>The deferred \<open>wg.Wait()\<close> returns once the counter is zero.\<close>

definition wait_returns :: "pstate \<Rightarrow> pstate" where
  "wait_returns s =
     (case apc s of
        AWait r \<Rightarrow> (if wg s = 0 then s\<lparr>apc := AExit r\<rparr> else s)
      | other \<Rightarrow> s)"

text \<open>
  The listener-close watcher of \<open>listen\<close>, lines 136 to 142: blocked on \<open>p.quit\<close>, then
  closes the listener and logs a failure of that close.
\<close>

definition quit_watcher :: "pstate \<Rightarrow> pstate" where
  "quit_watcher s =
     (if quit (prx s) = Closed \<and> \<not> qw_exited s
      then emit (ListenerClose #
                 (if listener_open s then []
                  else [Log LInfo ''Error closing listener''
                          [(''error'', ''use of closed network connection'')]]))
             (s\<lparr>qw_exited := True, listener_open := False\<rparr>)
      else s)"

text \<open>
  The session goroutine, one statement at a time. While it is inside
  \<open>handleConnection\<close> it does not move by itself: the handler comes back through
  \<open>handler_returns\<close> or \<open>handler_panics\<close>. The goroutine defers nothing, so a panic
  that leaves the handler is recovered by nobody. \<open>wg.Done()\<close> panics on a negative
  counter.
\<close>

definition session_step :: "nat \<Rightarrow> pstate \<Rightarrow> pstate" where
  "session_step n s =
     (if n < length (sessions s) then
        (let c = sessions s ! n in
         case spc c of
           SLogAccept \<Rightarrow>
             emit [ConnLog n LInfo ''Accept'', HandleConnection n]
               (set_session n (c\<lparr>spc := SHandle\<rparr>) s)
         | SHandle \<Rightarrow> s
         | SConnClose \<Rightarrow>
             emit [ConnClose n BySession]
               (set_session n (c\<lparr>sock_open := False, spc := SLogClose\<rparr>) s)
         | SLogClose \<Rightarrow>
             emit [ConnLog n LInfo ''Close''] (set_session n (c\<lparr>spc := SCloseDone\<rparr>) s)
         | SCloseDone \<Rightarrow>
             (case close_chan (done_ch c) of
                Inl r \<Rightarrow> crash r s
              | Inr ch \<Rightarrow>
                  emit [CloseDone n] (set_session n (c\<lparr>done_ch := ch, spc := SWgDone\<rparr>) s))
         | SWgDone \<Rightarrow>
             (if wg s - 1 < 0 then crash ''sync: negative WaitGroup counter'' s
              else emit [WgDone n]
                     (set_session n (c\<lparr>spc := SGaugeClosed\<rparr>) (s\<lparr>wg := wg s - 1\<rparr>)))
         | SGaugeClosed \<Rightarrow>
             emit [GaugeClosed n]
               (set_session n (c\<lparr>spc := SExit\<rparr>) (s\<lparr>gauge := gauge_closed (gauge s)\<rparr>))
         | SExit \<Rightarrow> s)
      else s)"

definition handler_returns :: "nat \<Rightarrow> pstate \<Rightarrow> pstate" where
  "handler_returns n s =
     (if n < length (sessions s) \<and> spc (sessions s ! n) = SHandle
      then set_session n ((sessions s ! n)\<lparr>spc := SConnClose\<rparr>) s
      else s)"

definition handler_panics :: "nat \<Rightarrow> panic \<Rightarrow> pstate \<Rightarrow> pstate" where
  "handler_panics n r s =
     (if n < length (sessions s) \<and> spc (sessions s ! n) = SHandle
      then crash r s
      else s)"

text \<open>
  The per-connection watcher. Its \<open>select\<close> blocks while neither \<open>done\<close> nor \<open>p.kill\<close>
  is closed, takes the one case that is ready, and when both are ready takes either
  (\<open>pick_done\<close> is the runtime's choice). In the kill case it closes the connection and
  logs only when that close reports no error; closing a connection that is already
  closed reports one (package \<open>net\<close>).
\<close>

definition watcher_step :: "nat \<Rightarrow> bool \<Rightarrow> pstate \<Rightarrow> pstate" where
  "watcher_step n pick_done s =
     (if n < length (sessions s) then
        (let c = sessions s ! n in
         case wpc c of
           WSelect \<Rightarrow>
             (let d = (done_ch c = Closed); k = (kill (prx s) = Closed)
              in if d \<and> k then set_session n (c\<lparr>wpc := (if pick_done then WExit else WForceClose)\<rparr>) s
                 else if d then set_session n (c\<lparr>wpc := WExit\<rparr>) s
                 else if k then set_session n (c\<lparr>wpc := WForceClose\<rparr>) s
                 else s)
         | WForceClose \<Rightarrow>
             emit (ConnClose n ByWatcher #
                   (if sock_open c then [ConnLog n LWarn ''Force closed connection''] else []))
               (set_session n (c\<lparr>sock_open := False, wpc := WExit\<rparr>) s)
         | WExit \<Rightarrow> s)
      else s)"

text \<open>
  Some goroutine calls \<open>p.Shutdown()\<close> or \<open>p.Kill()\<close>. A panic that came out of the call
  would be the caller's; nothing is known about a recovery there, so it ends the
  program. The state between the two halves of a \<open>Kill\<close> is the state after a
  \<open>Shutdown\<close>, so taking \<open>Kill\<close> in one step loses no state of the channels.
\<close>

definition do_call :: "(Proxy \<Rightarrow> Proxy outcome) \<Rightarrow> pstate \<Rightarrow> pstate" where
  "do_call f s =
     (case f (prx s) of
        Returns p' \<Rightarrow> s\<lparr>prx := p'\<rparr>
      | Panics r \<Rightarrow> crash r s
      | Never \<Rightarrow> s)"

definition step :: "action \<Rightarrow> pstate \<Rightarrow> pstate" where
  "step a s =
     (if crashed s \<noteq> None then s
      else (case a of
              AcceptReturns r \<Rightarrow> (if apc s = ALoop then accept_iteration r s else s)
            | WaitReturns \<Rightarrow> wait_returns s
            | QuitWatcher \<Rightarrow> quit_watcher s
            | SessionStep n \<Rightarrow> session_step n s
            | HandlerReturns n \<Rightarrow> handler_returns n s
            | HandlerPanics n r \<Rightarrow> handler_panics n r s
            | WatcherStep n b \<Rightarrow> watcher_step n b s
            | DoShutdown \<Rightarrow> do_call Shutdown s
            | DoKill \<Rightarrow> do_call Kill s))"

definition exec :: "action list \<Rightarrow> pstate \<Rightarrow> pstate" where
  "exec acts s = foldl (\<lambda>t a. step a t) s acts"

text \<open>
  \<open>accept\<close> starts with a fresh wait group and a fresh gauge, and runs until the
  goroutine that called it has left it; what the schedule holds beyond that point
  happens after \<open>accept\<close> has returned and is not part of the call.
\<close>

definition accept_entry :: "Proxy \<Rightarrow> event list \<Rightarrow> pstate" where
  "accept_entry p tr =
     \<lparr>prx = p, listener_open = True, qw_exited = False, apc = ALoop, wg = 0, gauge = 0,
      sessions = [], trace = tr, crashed = None\<rparr>"

fun accept_run :: "action list \<Rightarrow> pstate \<Rightarrow> pstate" where
  "accept_run [] s = s"
| "accept_run (a # as) s =
     (case apc s of
        AExit r \<Rightarrow> s
      | other \<Rightarrow> accept_run as (step a s))"

definition accept_outcome :: "pstate \<Rightarrow> unit outcome" where
  "accept_outcome s =
     (if crashed s \<noteq> None then Never
      else (case apc s of
              AExit None \<Rightarrow> Returns ()
            | AExit (Some r) \<Rightarrow> Panics r
            | other \<Rightarrow> Never))"

section \<open>listen and run\<close>

text \<open>
  \<open>listen\<close>, in three parts. Lines 121 to 129 up to the call of \<open>net.Listen\<close>: for a
  network whose name contains \<open>unix\<close> the mask is set to 0 first, and the address is
  unlinked when \<open>p.unlink\<close> is set (the result of \<open>syscall.Unlink\<close> is thrown away).
\<close>

definition listen_prelude :: "Proxy \<Rightarrow> event list" where
  "listen_prelude p =
     (if Contains (network p) ''unix''
      then SysUmask 0 # (if unlink p then [SysUnlink (address p)] else [])
      else [])
     @ [NetListen (network p) (address p)]"

text \<open>
  The deferred \<open>syscall.Umask(oldUmask)\<close> of line 123; \<open>oldUmask\<close> is what
  \<open>syscall.Umask(0)\<close> returned, the mask in force when \<open>listen\<close> was entered.
\<close>

definition deferred_umask :: "Proxy \<Rightarrow> nat \<Rightarrow> event list" where
  "deferred_umask p oldUmask = (if Contains (network p) ''unix'' then [SysUmask oldUmask] else [])"

text \<open>
  Lines 136 to 144, once the listener is open: the listener-close watcher is started
  and \<open>accept\<close> runs under the given schedule.
\<close>

definition listen_serving :: "Proxy \<Rightarrow> action list \<Rightarrow> pstate" where
  "listen_serving p sched =
     accept_run sched (accept_entry p (listen_prelude p @ [Go QuitWatcherG]))"

text \<open>
  \<open>bind\<close> is what \<open>net.Listen\<close> does. The deferred calls run when \<open>listen\<close> is left, by
  a return or by a panic, last deferred first: \<open>l.Close()\<close>, then
  \<open>syscall.Umask(oldUmask)\<close>. A \<open>listen\<close> that is never left runs none of them.
\<close>

definition listen ::
  "Proxy \<Rightarrow> nat \<Rightarrow> (error + unit) outcome \<Rightarrow> action list \<Rightarrow> (error option) result" where
  "listen p oldUmask bind sched =
     (case bind of
        Never \<Rightarrow> \<lparr>events = listen_prelude p, ret = Never\<rparr>
      | Panics r \<Rightarrow>
          \<lparr>events = listen_prelude p @ deferred_umask p oldUmask, ret = Panics r\<rparr>
      | Returns (Inl err) \<Rightarrow>
          \<lparr>events = listen_prelude p @ deferred_umask p oldUmask, ret = Returns (Some err)\<rparr>
      | Returns (Inr l) \<Rightarrow>
          (let s = listen_serving p sched
           in case accept_outcome s of
                Never \<Rightarrow> \<lparr>events = trace s, ret = Never\<rparr>
              | Panics r \<Rightarrow>
                  \<lparr>events = trace s @ ListenerClose # deferred_umask p oldUmask,
                   ret = Panics r\<rparr>
              | Returns u \<Rightarrow>
                  \<lparr>events = trace s @ ListenerClose # deferred_umask p oldUmask,
                   ret = Returns None\<rparr>))"

text \<open>
  What one invocation of \<open>run\<close> meets: the two \<open>mongo.Connect\<close> calls (package \<open>mongo\<close> is
  outside this file), the process mask, \<open>net.Listen\<close>, the schedule of the serving
  phase, and the text \<open>debug.Stack()\<close> gives.
\<close>

record env =
  connect_primary :: "(error + unit) outcome"
  connect_failover :: "(error + unit) outcome"
  umask :: nat
  net_Listen :: "(error + unit) outcome"
  schedule :: "action list"
  stack :: string

definition listen_env :: "Proxy \<Rightarrow> env \<Rightarrow> (error option) result" where
  "listen_env p e = listen p (umask e) (net_Listen e) (schedule e)"

text \<open>
  The body of \<open>run\<close>, lines 102 to 117, with its two deferred \<open>Close\<close> calls: they run
  whenever the body is left after the \<open>defer\<close> statement was reached, \<open>mf.Close()\<close>
  before \<open>m.Close()\<close>.
\<close>

definition run_body :: "Proxy \<Rightarrow> env \<Rightarrow> (error option) result" where
  "run_body p e =
     (case connect_primary e of
        Never \<Rightarrow> \<lparr>events = [MongoConnect Primary], ret = Never\<rparr>
      | Panics r \<Rightarrow> \<lparr>events = [MongoConnect Primary], ret = Panics r\<rparr>
      | Returns (Inl err) \<Rightarrow> \<lparr>events = [MongoConnect Primary], ret = Returns (Some err)\<rparr>
      | Returns (Inr m) \<Rightarrow>
          (case failover p of
             None \<Rightarrow>
               (let l = listen_env p e
                in \<lparr>events = MongoConnect Primary # events l
                              @ (if ret l = Never then [] else [MongoClose Primary]),
                    ret = ret l\<rparr>)
           | Some fo \<Rightarrow>
               (case connect_failover e of
                  Never \<Rightarrow>
                    \<lparr>events = [MongoConnect Primary, MongoConnect Failover], ret = Never\<rparr>
                | Panics r \<Rightarrow>
                    \<lparr>events = [MongoConnect Primary, MongoConnect Failover, MongoClose Primary],
                     ret = Panics r\<rparr>
                | Returns (Inl err) \<Rightarrow>
                    \<lparr>events = [MongoConnect Primary, MongoConnect Failover, MongoClose Primary],
                     ret = Returns (Some err)\<rparr>
                | Returns (Inr mf) \<Rightarrow>
                    (let l = listen_env p e
                     in \<lparr>events = MongoConnect Primary # MongoConnect Failover # events l
                                   @ (if ret l = Never then []
                                      else [MongoClose Failover, MongoClose Primary]),
                         ret = ret l\<rparr>))))"

text \<open>
  \<open>run\<close>: the body under the deferred function of lines 86 to 100. A panic of the body
  is recovered, logged with the stack, followed by the sleep, the second log line and
  the \<open>go\<close> statement; \<open>run\<close> has an unnamed result, so after the recovery it returns
  the zero value \<open>nil\<close>.
\<close>

definition run :: "Proxy \<Rightarrow> env \<Rightarrow> (error option) result" where
  "run p e =
     (let b = run_body p e
      in case ret b of
           Panics r \<Rightarrow>
             \<lparr>events = events b @
                [Log LError ''Crashed'' [(''panic'', r), (''stack'', stack e)],
                 Sleep restartSleep,
                 Log LInfo ''Restarting'' [(''sleep'', ''1s'')],
                 Go RestartG],
              ret = Returns None\<rparr>
         | other \<Rightarrow> b)"

definition Run :: "Proxy \<Rightarrow> env \<Rightarrow> (error option) result" where
  "Run p e = run p e"


section \<open>Invariants and concrete inputs\<close>

text \<open>
  What a caller of \<open>Shutdown\<close> or \<open>Kill\<close> can have left to do, given the channels: all
  of its steps, or, once \<open>p.quit\<close> is closed, the rest of them.
\<close>

definition caller_ok :: "Proxy \<Rightarrow> call \<times> sigstep list \<Rightarrow> bool" where
  "caller_ok p ct =
     (snd ct = steps_of (fst ct) \<or>
      (quit p = Closed \<and>
         ((fst ct = CallShutdown \<and> snd ct = []) \<or>
          (fst ct = CallKill \<and>
             (snd ct = [StepCloseKill] \<or> (snd ct = [] \<and> kill p = Closed))))))"

definition sig_inv :: "sstate \<Rightarrow> bool" where
  "sig_inv s =
     (raised s = [] \<and>
      count_list (effective s) StepShutdown = (if quit (sp s) = Closed then 1 else 0) \<and>
      count_list (effective s) StepCloseKill = (if kill (sp s) = Closed then 1 else 0) \<and>
      (kill (sp s) = Closed \<longrightarrow> quit (sp s) = Closed) \<and>
      (\<forall>ct \<in> set (callers s). caller_ok (sp s) ct))"

text \<open>A proxy on TCP without failover, as \<open>NewProxy\<close> makes it.\<close>

definition proxy_tcp :: Proxy where
  "proxy_tcp = \<lparr>network = ''tcp'', address = '':27016'', unlink = False, ping = False,
                 opts = ''mongodb://primary'', failover = None, quit = Open, kill = Open\<rparr>"

text \<open>
  The events of the trace that belong to the session of connection \<open>n\<close>, in the order
  of the program: the three the acceptor emits for it before and at the \<open>go\<close>
  statement, then the statements of the session goroutine. \<open>progress\<close> is how many of
  them lie behind a session at a given program counter, and \<open>own n\<close> projects a trace
  on them.
\<close>

definition session_events :: "nat \<Rightarrow> event list" where
  "session_events n =
     [WgAdd n, GaugeOpened n, Go (SessionG n), ConnLog n LInfo ''Accept'', HandleConnection n,
      ConnClose n BySession, ConnLog n LInfo ''Close'', CloseDone n, WgDone n, GaugeClosed n]"

fun progress :: "spc \<Rightarrow> nat" where
  "progress SLogAccept = 3"
| "progress SHandle = 5"
| "progress SConnClose = 5"
| "progress SLogClose = 6"
| "progress SCloseDone = 7"
| "progress SWgDone = 8"
| "progress SGaugeClosed = 9"
| "progress SExit = 10"

definition own :: "nat \<Rightarrow> event list \<Rightarrow> event list" where
  "own n tr = filter (\<lambda>e. e \<in> set (session_events n)) tr"

text \<open>
  Whether a session still counts in the wait group (it has not yet called \<open>wg.Done()\<close>)
  and in the gauge (it has not yet called \<open>closed\<close>); what must hold of one session;
  and the invariants of the serving state and of its trace.
\<close>

definition waited :: "session \<Rightarrow> int" where
  "waited c = (if spc c = SGaugeClosed \<or> spc c = SExit then 0 else 1)"

definition counted :: "session \<Rightarrow> int" where
  "counted c = (if spc c = SExit then 0 else 1)"

definition session_ok :: "session \<Rightarrow> bool" where
  "session_ok c =
     ((done_ch c = Closed) = (8 \<le> progress (spc c)) \<and>
      (6 \<le> progress (spc c) \<longrightarrow> \<not> sock_open c))"

definition state_inv :: "pstate \<Rightarrow> bool" where
  "state_inv s =
     (wg s = sum_list (map waited (sessions s)) \<and>
      gauge s = sum_list (map counted (sessions s)) \<and>
      (\<forall>n < length (sessions s). session_ok (sessions s ! n)) \<and>
      (apc s = AWait None \<or> apc s = AExit None \<longrightarrow> quit (prx s) = Closed))"

definition trace_inv :: "pstate \<Rightarrow> bool" where
  "trace_inv s =
     (\<forall>n. own n (trace s) =
           (if n < length (sessions s)
            then take (progress (spc (sessions s ! n))) (session_events n) else []))"

text \<open>Schedules of the serving phase used as concrete inputs below.\<close>

definition sched_one_session :: "action list" where
  "sched_one_session =
     [AcceptReturns AConn, SessionStep 0, HandlerReturns 0, SessionStep 0, SessionStep 0,
      SessionStep 0, SessionStep 0, SessionStep 0]"

definition sched_handler_panics :: "action list" where
  "sched_handler_panics = [AcceptReturns AConn, SessionStep 0, HandlerPanics 0 ''boom'']"

definition sched_in_handler :: "action list" where
  "sched_in_handler = [AcceptReturns AConn, SessionStep 0]"

definition sched_kill_in_handler :: "action list" where
  "sched_kill_in_handler = [AcceptReturns AConn, SessionStep 0, DoKill]"

definition sched_kill_after_close :: "action list" where
  "sched_kill_after_close =
     [AcceptReturns AConn, SessionStep 0, HandlerReturns 0, SessionStep 0, DoKill,
      WatcherStep 0 True, WatcherStep 0 True]"

definition sched_graceful :: "action list" where
  "sched_graceful =
     [AcceptReturns (AErr ''too many open files''), DoShutdown, QuitWatcher,
      AcceptReturns AConn, WaitReturns]"

text \<open>
  Kinds of events. \<open>serving_event\<close>: what \<open>listen\<close> and \<open>accept\<close> and the goroutines
  they start can emit once the listener is open. \<open>sys_event\<close>: the calls that touch
  the process mask or the file system. \<open>run_event\<close>: what only \<open>run\<close> emits.
  \<open>mask_after m tr\<close> is the process mask after the events \<open>tr\<close>, when it was \<open>m\<close>
  before; \<open>extends_serving s s'\<close> says that \<open>s'\<close> has the trace of \<open>s\<close> followed by
  serving events only.
\<close>

fun serving_event :: "event \<Rightarrow> bool" where
  "serving_event (Log l m fs) = True"
| "serving_event (ConnLog n l m) = True"
| "serving_event ListenerClose = True"
| "serving_event (Go g) = (g \<noteq> RestartG)"
| "serving_event (WgAdd n) = True"
| "serving_event (WgDone n) = True"
| "serving_event (GaugeOpened n) = True"
| "serving_event (GaugeClosed n) = True"
| "serving_event (HandleConnection n) = True"
| "serving_event (ConnClose n w) = True"
| "serving_event (CloseDone n) = True"
| "serving_event e = False"

fun sys_event :: "event \<Rightarrow> bool" where
  "sys_event (SysUmask m) = True"
| "sys_event (SysUnlink a) = True"
| "sys_event e = False"

fun mask_after :: "nat \<Rightarrow> event list \<Rightarrow> nat" where
  "mask_after m [] = m"
| "mask_after m (SysUmask x # es) = mask_after x es"
| "mask_after m (e # es) = mask_after m es"

fun run_event :: "event \<Rightarrow> bool" where
  "run_event (MongoConnect u) = True"
| "run_event (MongoClose u) = True"
| "run_event (Sleep d) = True"
| "run_event (Go g) = (g = RestartG)"
| "run_event e = False"

definition extends_serving :: "pstate \<Rightarrow> pstate \<Rightarrow> bool" where
  "extends_serving s s' = (\<exists>ev. trace s' = trace s @ ev \<and> list_all serving_event ev)"

text \<open>
  A proxy on a unix-domain socket with a failover upstream, as \<open>NewProxy\<close> makes it;
  a schedule that serves one connection and then shuts down gracefully; and an
  environment of \<open>run\<close> in which every call into the collaborators succeeds.
\<close>

definition proxy_unix :: Proxy where
  "proxy_unix = \<lparr>network = ''unix'', address = ''/var/tmp/mongobetween.sock'', unlink = True,
                  ping = True, opts = ''mongodb://primary'',
                  failover = Some ''mongodb://failover'', quit = Open, kill = Open\<rparr>"

definition sched_serve_then_shutdown :: "action list" where
  "sched_serve_then_shutdown =
     [AcceptReturns AConn, SessionStep 0, HandlerReturns 0, SessionStep 0, SessionStep 0,
      SessionStep 0, SessionStep 0, DoShutdown, QuitWatcher,
      AcceptReturns (AErr ''use of closed network connection''), WaitReturns]"

definition env_ok :: env where
  "env_ok = \<lparr>connect_primary = Returns (Inr ()), connect_failover = Returns (Inr ()),
             umask = 18, net_Listen = Returns (Inr ()), schedule = sched_graceful,
             stack = ''goroutine 1 [running]''\<rparr>"

section \<open>Shutdown and Kill\<close>

lemma Shutdown_eq: "Shutdown p = Returns (p\<lparr>quit := Closed\<rparr>)"
  by (cases "quit p") (simp_all add: Shutdown_def close_chan_def recover_discard_def)

lemma Kill_close_eq: "Kill_close p = Returns (p\<lparr>kill := Closed\<rparr>)"
  by (cases "kill p") (simp_all add: Kill_close_def close_chan_def recover_discard_def)

lemma Kill_eq: "Kill p = Returns (p\<lparr>quit := Closed, kill := Closed\<rparr>)"
  by (simp add: Kill_def Shutdown_eq Kill_close_eq)

lemma upd_quit_same_iff: "(p\<lparr>quit := Closed\<rparr> = p) = (quit p = Closed)"
proof
  assume b: "p\<lparr>quit := Closed\<rparr> = p"
  have "quit (p\<lparr>quit := Closed\<rparr>) = Closed" by simp
  with b show "quit p = Closed" by simp
next
  assume "quit p = Closed"
  then show "p\<lparr>quit := Closed\<rparr> = p" by simp
qed

lemma upd_kill_same_iff: "(p\<lparr>kill := Closed\<rparr> = p) = (kill p = Closed)"
proof
  assume b: "p\<lparr>kill := Closed\<rparr> = p"
  have "kill (p\<lparr>kill := Closed\<rparr>) = Closed" by simp
  with b show "kill p = Closed" by simp
next
  assume "kill p = Closed"
  then show "p\<lparr>kill := Closed\<rparr> = p" by simp
qed

lemma NewProxy_open:
  "NewProxy te label nw addr ul pg os fo = Inr p \<Longrightarrow> quit p = Open \<and> kill p = Open"
  by (auto simp: NewProxy_def split: option.splits if_splits)

lemma NewProxy_tcp:
  "NewProxy None [] ''tcp'' '':27016'' False False ''mongodb://primary'' None = Inr proxy_tcp"
  by (simp add: NewProxy_def proxy_tcp_def)

lemma sig_inv_init: "quit p = Open \<Longrightarrow> kill p = Open \<Longrightarrow> sig_inv (sinit p)"
  by (simp add: sig_inv_def sinit_def)

lemma caller_ok_quit: "caller_ok p ct \<Longrightarrow> caller_ok (p\<lparr>quit := Closed\<rparr>) ct"
  by (auto simp: caller_ok_def)

lemma caller_ok_kill: "caller_ok p ct \<Longrightarrow> caller_ok (p\<lparr>kill := Closed\<rparr>) ct"
  by (auto simp: caller_ok_def)

lemma sig_inv_advance_shutdown:
  assumes inv: "sig_inv s" and i: "i < length (callers s)"
    and ct: "callers s ! i = (c, StepShutdown # rest)"
  shows "sig_inv (sstep (Advance i) s)"
proof -
  have mem: "(c, StepShutdown # rest) \<in> set (callers s)" using i ct by (metis nth_mem)
  have ok: "caller_ok (sp s) (c, StepShutdown # rest)" using inv mem by (simp add: sig_inv_def)
  have new: "caller_ok (sp s\<lparr>quit := Closed\<rparr>) (c, rest)"
    using ok by (cases c) (auto simp: caller_ok_def)
  have others: "\<forall>ct \<in> set (callers s). caller_ok (sp s\<lparr>quit := Closed\<rparr>) ct"
    using inv caller_ok_quit by (simp add: sig_inv_def)
  have all: "\<forall>ct \<in> set ((callers s)[i := (c, rest)]). caller_ok (sp s\<lparr>quit := Closed\<rparr>) ct"
    using new others set_update_subset_insert[of "callers s" i "(c, rest)"] by auto
  show ?thesis
    using inv all i ct
    by (cases "quit (sp s)")
       (simp_all add: sig_inv_def Shutdown_eq upd_quit_same_iff)
qed

lemma sig_inv_advance_closekill:
  assumes inv: "sig_inv s" and i: "i < length (callers s)"
    and ct: "callers s ! i = (c, StepCloseKill # rest)"
  shows "sig_inv (sstep (Advance i) s)"
proof -
  have mem: "(c, StepCloseKill # rest) \<in> set (callers s)" using i ct by (metis nth_mem)
  have ok: "caller_ok (sp s) (c, StepCloseKill # rest)" using inv mem by (simp add: sig_inv_def)
  have q: "quit (sp s) = Closed" and r: "rest = []" and k: "c = CallKill"
    using ok by (cases c; auto simp: caller_ok_def)+
  have new: "caller_ok (sp s\<lparr>kill := Closed\<rparr>) (c, rest)"
    using q r k by (simp add: caller_ok_def)
  have others: "\<forall>ct \<in> set (callers s). caller_ok (sp s\<lparr>kill := Closed\<rparr>) ct"
    using inv caller_ok_kill by (simp add: sig_inv_def)
  have all: "\<forall>ct \<in> set ((callers s)[i := (c, rest)]). caller_ok (sp s\<lparr>kill := Closed\<rparr>) ct"
    using new others set_update_subset_insert[of "callers s" i "(c, rest)"] by auto
  show ?thesis
    using inv all i ct q
    by (cases "kill (sp s)")
       (simp_all add: sig_inv_def Kill_close_eq upd_kill_same_iff)
qed

lemma sig_inv_step: "sig_inv s \<Longrightarrow> sig_inv (sstep a s)"
proof (cases a)
  case (Enter c)
  assume "sig_inv s"
  then show ?thesis using Enter by (simp add: sig_inv_def caller_ok_def)
next
  case (Advance i)
  assume inv: "sig_inv s"
  show ?thesis
  proof (cases "i < length (callers s)")
    case False
    then show ?thesis using inv Advance by simp
  next
    case True
    obtain c td where ctd: "callers s ! i = (c, td)" by (cases "callers s ! i")
    show ?thesis
    proof (cases td)
      case Nil
      then show ?thesis using inv Advance True ctd by simp
    next
      case (Cons st rest)
      show ?thesis
      proof (cases st)
        case StepShutdown
        then show ?thesis using sig_inv_advance_shutdown[OF inv True] ctd Cons Advance by simp
      next
        case StepCloseKill
        then show ?thesis using sig_inv_advance_closekill[OF inv True] ctd Cons Advance by simp
      qed
    qed
  qed
qed

lemma sig_inv_sexec: "sig_inv s \<Longrightarrow> sig_inv (sexec acts s)"
  unfolding sexec_def by (induction acts arbitrary: s) (simp_all add: sig_inv_step)

lemma caller_done_quit:
  "sig_inv s \<Longrightarrow> (c, []) \<in> set (callers s) \<Longrightarrow> quit (sp s) = Closed"
  by (cases c) (auto simp: sig_inv_def caller_ok_def)

lemma kill_done_kill:
  "sig_inv s \<Longrightarrow> (CallKill, []) \<in> set (callers s) \<Longrightarrow> kill (sp s) = Closed"
  by (auto simp: sig_inv_def caller_ok_def)

lemma sexec_three_callers:
  "sexec [Enter CallShutdown, Enter CallKill, Advance 1, Advance 0, Advance 1,
          Enter CallShutdown, Advance 2] (sinit proxy_tcp)
   = \<lparr>sp = proxy_tcp\<lparr>quit := Closed, kill := Closed\<rparr>,
      callers = [(CallShutdown, []), (CallKill, []), (CallShutdown, [])],
      effective = [StepShutdown, StepCloseKill], raised = []\<rparr>"
  by (simp add: sexec_def sinit_def Shutdown_eq Kill_close_eq upd_quit_same_iff
        upd_kill_same_iff proxy_tcp_def)

lemma sexec_kill_only:
  "sexec [Enter CallKill, Advance 0, Advance 0] (sinit proxy_tcp)
   = \<lparr>sp = proxy_tcp\<lparr>quit := Closed, kill := Closed\<rparr>, callers = [(CallKill, [])],
      effective = [StepShutdown, StepCloseKill], raised = []\<rparr>"
  by (simp add: sexec_def sinit_def Shutdown_eq Kill_close_eq upd_quit_same_iff
        upd_kill_same_iff proxy_tcp_def)

section \<open>Invariants of the serving state\<close>

lemma sum_list_map_update:
  "n < length xs \<Longrightarrow>
   sum_list (map f (xs[n := y])) = sum_list (map f xs) - f (xs ! n) + (f y :: int)"
proof (induction xs arbitrary: n)
  case Nil
  then show ?case by simp
next
  case (Cons x xs)
  then show ?case by (cases n) simp_all
qed

lemma own_append: "own n (tr @ ev) = own n tr @ own n ev"
  by (simp add: own_def)

lemma state_inv_entry: "state_inv (accept_entry p tr)"
  by (simp add: state_inv_def accept_entry_def)

lemma trace_inv_entry: "trace_inv (accept_entry p [])"
  by (simp add: trace_inv_def accept_entry_def own_def)

lemma state_inv_update:
  assumes inv: "state_inv s" and n: "n < length (sessions s)"
    and ss: "sessions s' = (sessions s)[n := c']"
    and w: "wg s' = wg s - waited (sessions s ! n) + waited c'"
    and g: "gauge s' = gauge s - counted (sessions s ! n) + counted c'"
    and ok: "session_ok c'"
    and a: "apc s' = apc s" and p: "prx s' = prx s"
  shows "state_inv s'"
  using inv n w g ok
  by (simp add: state_inv_def ss a p sum_list_map_update nth_list_update)

lemma state_inv_accept_iteration:
  assumes "state_inv s"
  shows "state_inv (accept_iteration r s)"
proof -
  let ?r = "if listener_open s then r
            else (case r of AConn \<Rightarrow> AErr ''use of closed network connection'' | other \<Rightarrow> other)"
  show ?thesis
  proof (cases ?r)
    case (APanic x)
    then show ?thesis using assms
      by (simp add: accept_iteration_def state_inv_def emit_def)
  next
    case (AErr e)
    then show ?thesis using assms
      by (simp add: accept_iteration_def state_inv_def emit_def)
  next
    case AConn
    then show ?thesis using assms
      by (auto simp: accept_iteration_def state_inv_def emit_def Let_def
            new_session_def waited_def counted_def session_ok_def nth_append)
  qed
qed

lemma state_inv_session_step:
  assumes inv: "state_inv s"
  shows "state_inv (session_step n s)"
proof (cases "n < length (sessions s)")
  case False
  then show ?thesis using inv by (simp add: session_step_def)
next
  case n: True
  let ?c = "sessions s ! n"
  have ok: "session_ok ?c" using inv n by (simp add: state_inv_def)
  show ?thesis
  proof (cases "spc ?c")
    case SLogAccept
    show ?thesis
      apply (rule state_inv_update[OF inv n, where c' = "?c\<lparr>spc := SHandle\<rparr>"])
      using n SLogAccept ok
      by (auto simp: session_step_def emit_def set_session_def waited_def counted_def
              session_ok_def)
  next
    case SHandle
    then show ?thesis using inv n by (simp add: session_step_def)
  next
    case SConnClose
    show ?thesis
      apply (rule state_inv_update[OF inv n,
            where c' = "?c\<lparr>sock_open := False, spc := SLogClose\<rparr>"])
      using n SConnClose ok
      by (auto simp: session_step_def emit_def set_session_def waited_def counted_def
              session_ok_def)
  next
    case SLogClose
    show ?thesis
      apply (rule state_inv_update[OF inv n, where c' = "?c\<lparr>spc := SCloseDone\<rparr>"])
      using n SLogClose ok
      by (auto simp: session_step_def emit_def set_session_def waited_def counted_def
              session_ok_def)
  next
    case SCloseDone
    have op: "done_ch ?c = Open"
      using ok SCloseDone by (cases "done_ch ?c") (auto simp: session_ok_def)
    show ?thesis
      apply (rule state_inv_update[OF inv n,
            where c' = "?c\<lparr>done_ch := Closed, spc := SWgDone\<rparr>"])
      using n SCloseDone op ok
      by (auto simp: session_step_def emit_def set_session_def waited_def counted_def
              session_ok_def close_chan_def)
  next
    case SWgDone
    show ?thesis
    proof (cases "wg s - 1 < 0")
      case True
      then show ?thesis using inv n SWgDone
        by (simp add: session_step_def crash_def state_inv_def)
    next
      case False
      show ?thesis
        apply (rule state_inv_update[OF inv n, where c' = "?c\<lparr>spc := SGaugeClosed\<rparr>"])
        using n SWgDone False ok
        by (auto simp: session_step_def emit_def set_session_def waited_def counted_def
                session_ok_def)
    qed
  next
    case SGaugeClosed
    show ?thesis
      apply (rule state_inv_update[OF inv n, where c' = "?c\<lparr>spc := SExit\<rparr>"])
      using n SGaugeClosed ok
      by (auto simp: session_step_def emit_def set_session_def waited_def counted_def
              session_ok_def)
  next
    case SExit
    then show ?thesis using inv n by (simp add: session_step_def)
  qed
qed

lemma state_inv_handler_returns:
  assumes inv: "state_inv s"
  shows "state_inv (handler_returns n s)"
proof (cases "n < length (sessions s) \<and> spc (sessions s ! n) = SHandle")
  case False
  then show ?thesis using inv by (auto simp: handler_returns_def)
next
  case True
  then have n: "n < length (sessions s)" and h: "spc (sessions s ! n) = SHandle" by simp_all
  have ok: "session_ok (sessions s ! n)" using inv n by (simp add: state_inv_def)
  show ?thesis
    apply (rule state_inv_update[OF inv n, where c' = "(sessions s ! n)\<lparr>spc := SConnClose\<rparr>"])
    using n h ok
    by (auto simp: handler_returns_def set_session_def waited_def counted_def session_ok_def)
qed

lemma state_inv_handler_panics: "state_inv s \<Longrightarrow> state_inv (handler_panics n r s)"
  by (simp add: handler_panics_def crash_def state_inv_def)

lemma state_inv_watcher_step:
  assumes inv: "state_inv s"
  shows "state_inv (watcher_step n b s)"
proof (cases "n < length (sessions s)")
  case False
  then show ?thesis using inv by (simp add: watcher_step_def)
next
  case n: True
  let ?c = "sessions s ! n"
  have ok: "session_ok ?c" using inv n by (simp add: state_inv_def)
  have upd: "\<And>(s'::pstate) c'. sessions s' = (sessions s)[n := c'] \<Longrightarrow> wg s' = wg s \<Longrightarrow>
               gauge s' = gauge s \<Longrightarrow> spc c' = spc ?c \<Longrightarrow> done_ch c' = done_ch ?c \<Longrightarrow>
               (sock_open c' \<longrightarrow> sock_open ?c) \<Longrightarrow> apc s' = apc s \<Longrightarrow> prx s' = prx s \<Longrightarrow>
               state_inv s'"
  proof -
    fix s' :: pstate and c' :: session
    assume a: "sessions s' = (sessions s)[n := c']" "wg s' = wg s" "gauge s' = gauge s"
      "spc c' = spc ?c" "done_ch c' = done_ch ?c" "sock_open c' \<longrightarrow> sock_open ?c"
      "apc s' = apc s" "prx s' = prx s"
    have ok': "session_ok c'" using ok a by (auto simp: session_ok_def)
    show "state_inv s'"
      by (rule state_inv_update[OF inv n a(1) _ _ ok' a(7) a(8)])
         (simp_all add: a waited_def counted_def)
  qed
  show ?thesis
  proof (cases "wpc ?c")
    case WSelect
    show ?thesis
      apply (cases "done_ch ?c = Closed"; cases "kill (prx s) = Closed"; cases b)
      using n WSelect inv
      by (auto simp: watcher_step_def set_session_def Let_def intro!: upd)
  next
    case WForceClose
    show ?thesis
      using n WForceClose
      by (auto simp: watcher_step_def set_session_def emit_def Let_def intro!: upd)
  next
    case WExit
    then show ?thesis using inv n by (simp add: watcher_step_def)
  qed
qed

lemma state_inv_step: "state_inv s \<Longrightarrow> state_inv (step a s)"
proof (cases a)
  case (AcceptReturns r)
  assume "state_inv s"
  then show ?thesis using AcceptReturns by (simp add: step_def state_inv_accept_iteration)
next
  case WaitReturns
  assume "state_inv s"
  then show ?thesis using WaitReturns
    by (auto simp: step_def wait_returns_def state_inv_def split: apc.splits)
next
  case QuitWatcher
  assume "state_inv s"
  then show ?thesis using QuitWatcher
    by (simp add: step_def quit_watcher_def state_inv_def emit_def)
next
  case (SessionStep n)
  assume "state_inv s"
  then show ?thesis using SessionStep by (simp add: step_def state_inv_session_step)
next
  case (HandlerReturns n)
  assume "state_inv s"
  then show ?thesis using HandlerReturns by (simp add: step_def state_inv_handler_returns)
next
  case (HandlerPanics n r)
  assume "state_inv s"
  then show ?thesis using HandlerPanics by (simp add: step_def state_inv_handler_panics)
next
  case (WatcherStep n b)
  assume "state_inv s"
  then show ?thesis using WatcherStep by (simp add: step_def state_inv_watcher_step)
next
  case DoShutdown
  assume "state_inv s"
  then show ?thesis using DoShutdown
    by (simp add: step_def do_call_def Shutdown_eq state_inv_def)
next
  case DoKill
  assume "state_inv s"
  then show ?thesis using DoKill
    by (simp add: step_def do_call_def Kill_eq state_inv_def)
qed

lemma exec_preserves:
  assumes "\<And>a s. P s \<Longrightarrow> P (step a s)" and "P s"
  shows "P (exec acts s)"
  using assms(2) unfolding exec_def
  by (induction acts arbitrary: s) (simp_all add: assms(1))

lemma accept_run_preserves:
  assumes "\<And>a s. P s \<Longrightarrow> P (step a s)" and "P s"
  shows "P (accept_run acts s)"
  using assms(2)
  by (induction acts arbitrary: s) (simp_all add: assms(1) split: apc.splits)

lemma state_inv_exec: "state_inv (exec acts (accept_entry p tr))"
  by (rule exec_preserves[of state_inv]) (simp_all add: state_inv_step state_inv_entry)


lemma trace_inv_update:
  assumes inv: "trace_inv s" and n: "n < length (sessions s)"
    and ss: "sessions s' = (sessions s)[n := c']"
    and tr: "trace s' = trace s @ ev"
    and mono: "progress (spc (sessions s ! n)) \<le> progress (spc c')"
    and o: "\<And>m. own m ev =
              (if m = n then drop (progress (spc (sessions s ! n)))
                               (take (progress (spc c')) (session_events n)) else [])"
  shows "trace_inv s'"
proof -
  have e: "own m (trace s') =
           (if m < length (sessions s')
            then take (progress (spc (sessions s' ! m))) (session_events m) else [])" for m
  proof (cases "m = n")
    case True
    have old: "own n (trace s) = take (progress (spc (sessions s ! n))) (session_events n)"
      using inv n by (simp add: trace_inv_def)
    have "take (progress (spc (sessions s ! n))) (session_events n)
          = take (progress (spc (sessions s ! n))) (take (progress (spc c')) (session_events n))"
      using mono by (simp add: min_def)
    moreover have "own n ev = drop (progress (spc (sessions s ! n)))
                             (take (progress (spc c')) (session_events n))"
      using o[of n] by simp
    ultimately have "own n (trace s) @ own n ev = take (progress (spc c')) (session_events n)"
      using old by (simp only: append_take_drop_id)
    then show ?thesis using True n by (simp add: tr ss own_append)
  next
    case False
    have "own m (trace s) =
         (if m < length (sessions s)
          then take (progress (spc (sessions s ! m))) (session_events m) else [])"
      using inv by (simp add: trace_inv_def)
    then show ?thesis using False o[of m] by (simp add: tr ss own_append)
  qed
  show ?thesis using e by (simp add: trace_inv_def)
qed

lemma trace_inv_accept_iteration:
  assumes "trace_inv s"
  shows "trace_inv (accept_iteration r s)"
proof -
  let ?r = "if listener_open s then r
            else (case r of AConn \<Rightarrow> AErr ''use of closed network connection'' | other \<Rightarrow> other)"
  show ?thesis
  proof (cases ?r)
    case (APanic x)
    then show ?thesis using assms
      by (simp add: accept_iteration_def trace_inv_def emit_def own_def session_events_def)
  next
    case (AErr e)
    then show ?thesis using assms
      by (simp add: accept_iteration_def trace_inv_def emit_def own_def session_events_def)
  next
    case AConn
    have own_new: "\<And>n. own n [WgAdd (length (sessions s)), GaugeOpened (length (sessions s)),
                      Go (SessionG (length (sessions s))), Go (WatcherG (length (sessions s)))]
                  = (if n = length (sessions s) then [WgAdd n, GaugeOpened n, Go (SessionG n)] else [])"
      by (auto simp: own_def session_events_def)
    have tk: "\<And>n. take 3 (session_events n) = [WgAdd n, GaugeOpened n, Go (SessionG n)]"
      by (simp add: session_events_def)
    show ?thesis using assms AConn
      by (auto simp: accept_iteration_def trace_inv_def emit_def own_append own_new tk Let_def
            new_session_def nth_append)
  qed
qed

lemma trace_inv_session_step:
  assumes inv: "trace_inv s"
  shows "trace_inv (session_step n s)"
proof (cases "n < length (sessions s)")
  case False
  then show ?thesis using inv by (simp add: session_step_def)
next
  case n: True
  let ?c = "sessions s ! n"
  show ?thesis
  proof (cases "spc ?c")
    case SLogAccept
    show ?thesis
      apply (rule trace_inv_update[OF inv n, where c' = "?c\<lparr>spc := SHandle\<rparr>"
            and ev = "[ConnLog n LInfo ''Accept'', HandleConnection n]"])
      using n SLogAccept
      by (auto simp: session_step_def emit_def set_session_def own_def session_events_def)
  next
    case SHandle
    then show ?thesis using inv n by (simp add: session_step_def)
  next
    case SConnClose
    show ?thesis
      apply (rule trace_inv_update[OF inv n,
            where c' = "?c\<lparr>sock_open := False, spc := SLogClose\<rparr>"
            and ev = "[ConnClose n BySession]"])
      using n SConnClose
      by (auto simp: session_step_def emit_def set_session_def own_def session_events_def)
  next
    case SLogClose
    show ?thesis
      apply (rule trace_inv_update[OF inv n, where c' = "?c\<lparr>spc := SCloseDone\<rparr>"
            and ev = "[ConnLog n LInfo ''Close'']"])
      using n SLogClose
      by (auto simp: session_step_def emit_def set_session_def own_def session_events_def)
  next
    case SCloseDone
    show ?thesis
    proof (cases "done_ch ?c")
      case Closed
      then show ?thesis using inv n SCloseDone
        by (simp add: session_step_def crash_def trace_inv_def close_chan_def)
    next
      case Open
      show ?thesis
        apply (rule trace_inv_update[OF inv n,
              where c' = "?c\<lparr>done_ch := Closed, spc := SWgDone\<rparr>" and ev = "[CloseDone n]"])
        using n SCloseDone Open
        by (auto simp: session_step_def emit_def set_session_def close_chan_def own_def
                session_events_def)
    qed
  next
    case SWgDone
    show ?thesis
    proof (cases "wg s - 1 < 0")
      case True
      then show ?thesis using inv n SWgDone
        by (simp add: session_step_def crash_def trace_inv_def)
    next
      case False
      show ?thesis
        apply (rule trace_inv_update[OF inv n, where c' = "?c\<lparr>spc := SGaugeClosed\<rparr>"
              and ev = "[WgDone n]"])
        using n SWgDone False
        by (auto simp: session_step_def emit_def set_session_def own_def session_events_def)
    qed
  next
    case SGaugeClosed
    show ?thesis
      apply (rule trace_inv_update[OF inv n, where c' = "?c\<lparr>spc := SExit\<rparr>"
            and ev = "[GaugeClosed n]"])
      using n SGaugeClosed
      by (auto simp: session_step_def emit_def set_session_def own_def session_events_def)
  next
    case SExit
    then show ?thesis using inv n by (simp add: session_step_def)
  qed
qed

lemma trace_inv_handler_returns:
  assumes inv: "trace_inv s"
  shows "trace_inv (handler_returns n s)"
proof (cases "n < length (sessions s) \<and> spc (sessions s ! n) = SHandle")
  case False
  then show ?thesis using inv by (auto simp: handler_returns_def)
next
  case True
  then have n: "n < length (sessions s)" and h: "spc (sessions s ! n) = SHandle" by simp_all
  show ?thesis
    apply (rule trace_inv_update[OF inv n, where c' = "(sessions s ! n)\<lparr>spc := SConnClose\<rparr>"
          and ev = "[]"])
    using n h
    by (auto simp: handler_returns_def set_session_def own_def)
qed

lemma trace_inv_watcher_step:
  assumes inv: "trace_inv s"
  shows "trace_inv (watcher_step n b s)"
proof (cases "n < length (sessions s)")
  case False
  then show ?thesis using inv by (simp add: watcher_step_def)
next
  case n: True
  let ?c = "sessions s ! n"
  have upd: "\<And>(s'::pstate) c' ev. sessions s' = (sessions s)[n := c'] \<Longrightarrow>
               trace s' = trace s @ ev \<Longrightarrow> spc c' = spc ?c \<Longrightarrow> (\<And>m. own m ev = []) \<Longrightarrow>
               trace_inv s'"
  proof -
    fix s' :: pstate and c' :: session and ev
    assume a: "sessions s' = (sessions s)[n := c']" "trace s' = trace s @ ev"
      "spc c' = spc ?c" "\<And>m. own m ev = []"
    show "trace_inv s'"
      by (rule trace_inv_update[OF inv n a(1) a(2)]) (simp_all add: a)
  qed
  have o: "\<And>m. own m (ConnClose n ByWatcher #
                 (if sock_open ?c then [ConnLog n LWarn ''Force closed connection''] else [])) = []"
    by (simp add: own_def session_events_def)
  show ?thesis
  proof (cases "wpc ?c")
    case WSelect
    have "trace_inv (set_session n (?c\<lparr>wpc := w\<rparr>) s)" for w
      by (rule upd[where c' = "?c\<lparr>wpc := w\<rparr>" and ev = "[]"])
         (simp_all add: set_session_def own_def)
    then show ?thesis using n WSelect inv
      by (simp add: watcher_step_def Let_def)
  next
    case WForceClose
    have "trace_inv (emit (ConnClose n ByWatcher #
                   (if sock_open ?c then [ConnLog n LWarn ''Force closed connection''] else []))
               (set_session n (?c\<lparr>sock_open := False, wpc := WExit\<rparr>) s))"
      by (rule upd[where c' = "?c\<lparr>sock_open := False, wpc := WExit\<rparr>", OF _ _ _ o])
         (simp_all add: set_session_def emit_def)
    then show ?thesis
      using n WForceClose by (simp add: watcher_step_def Let_def)
  next
    case WExit
    then show ?thesis using inv n by (simp add: watcher_step_def)
  qed
qed

lemma trace_inv_step: "trace_inv s \<Longrightarrow> trace_inv (step a s)"
proof (cases a)
  case (AcceptReturns r)
  assume "trace_inv s"
  then show ?thesis using AcceptReturns by (simp add: step_def trace_inv_accept_iteration)
next
  case WaitReturns
  assume "trace_inv s"
  then show ?thesis using WaitReturns
    by (auto simp: step_def wait_returns_def trace_inv_def split: apc.splits)
next
  case QuitWatcher
  assume "trace_inv s"
  then show ?thesis using QuitWatcher
    by (simp add: step_def quit_watcher_def trace_inv_def emit_def own_def session_events_def)
next
  case (SessionStep n)
  assume "trace_inv s"
  then show ?thesis using SessionStep by (simp add: step_def trace_inv_session_step)
next
  case (HandlerReturns n)
  assume "trace_inv s"
  then show ?thesis using HandlerReturns by (simp add: step_def trace_inv_handler_returns)
next
  case (HandlerPanics n r)
  assume "trace_inv s"
  then show ?thesis using HandlerPanics
    by (simp add: step_def handler_panics_def crash_def trace_inv_def)
next
  case (WatcherStep n b)
  assume "trace_inv s"
  then show ?thesis using WatcherStep by (simp add: step_def trace_inv_watcher_step)
next
  case DoShutdown
  assume "trace_inv s"
  then show ?thesis using DoShutdown
    by (simp add: step_def do_call_def Shutdown_eq trace_inv_def)
next
  case DoKill
  assume "trace_inv s"
  then show ?thesis using DoKill
    by (simp add: step_def do_call_def Kill_eq trace_inv_def)
qed

lemma trace_inv_exec: "trace_inv (exec acts (accept_entry p []))"
  by (rule exec_preserves[of trace_inv]) (simp_all add: trace_inv_step trace_inv_entry)

lemma sum_counted: "sum_list (map counted xs) = int (length (filter (\<lambda>c. spc c \<noteq> SExit) xs))"
  by (induction xs) (simp_all add: counted_def)

lemma count_list_filter: "P e \<Longrightarrow> count_list (filter P tr) e = count_list tr e"
  by (induction tr) simp_all

lemma count_own:
  "e \<in> set (session_events n) \<Longrightarrow> count_list tr e = count_list (own n tr) e"
  by (simp add: own_def count_list_filter)

lemma count_opened_prefix:
  "count_list (take (progress pc) (session_events n)) (GaugeOpened n) = 1"
  by (cases pc) (simp_all add: session_events_def)

lemma count_closed_prefix:
  "count_list (take (progress pc) (session_events n)) (GaugeClosed n) = (if pc = SExit then 1 else 0)"
  by (cases pc) (simp_all add: session_events_def)

lemma exec_one_session:
  "exec sched_one_session (accept_entry proxy_tcp [])
   = \<lparr>prx = proxy_tcp, listener_open = True, qw_exited = False, apc = ALoop, wg = 0,
      gauge = 0,
      sessions = [\<lparr>sock_open = False, done_ch = Closed, spc = SExit, wpc = WSelect\<rparr>],
      trace = [WgAdd 0, GaugeOpened 0, Go (SessionG 0), Go (WatcherG 0),
               ConnLog 0 LInfo ''Accept'', HandleConnection 0, ConnClose 0 BySession,
               ConnLog 0 LInfo ''Close'', CloseDone 0, WgDone 0, GaugeClosed 0],
      crashed = None\<rparr>"
  by (simp add: sched_one_session_def exec_def step_def accept_entry_def accept_iteration_def
        session_step_def handler_returns_def emit_def set_session_def new_session_def
        close_chan_def Let_def)

section \<open>Single steps and concrete runs\<close>

lemma session_run_after_handler:
  assumes n: "n < length (sessions s)" and h: "spc (sessions s ! n) = SHandle"
    and c: "crashed s = None" and d: "done_ch (sessions s ! n) = Open"
  shows "exec [HandlerReturns n, SessionStep n, SessionStep n, SessionStep n] s
         = s\<lparr>sessions := (sessions s)[n := (sessions s ! n)\<lparr>sock_open := False,
                                    done_ch := Closed, spc := SWgDone\<rparr>],
             trace := trace s @ [ConnClose n BySession, ConnLog n LInfo ''Close'', CloseDone n]\<rparr>"
  using assms
  by (simp add: exec_def step_def handler_returns_def session_step_def emit_def set_session_def
        close_chan_def Let_def)

lemma state_inv_done_open:
  "state_inv s \<Longrightarrow> n < length (sessions s) \<Longrightarrow> spc (sessions s ! n) = SHandle \<Longrightarrow>
   done_ch (sessions s ! n) = Open"
  by (cases "done_ch (sessions s ! n)") (auto simp: state_inv_def session_ok_def)

lemma state_inv_done_sock:
  "state_inv s \<Longrightarrow> n < length (sessions s) \<Longrightarrow> done_ch (sessions s ! n) = Closed \<Longrightarrow>
   \<not> sock_open (sessions s ! n)"
  by (auto simp: state_inv_def session_ok_def)

lemma exec_in_handler:
  "exec sched_in_handler (accept_entry proxy_tcp [])
   = \<lparr>prx = proxy_tcp, listener_open = True, qw_exited = False, apc = ALoop, wg = 1,
      gauge = 1,
      sessions = [\<lparr>sock_open = True, done_ch = Open, spc = SHandle, wpc = WSelect\<rparr>],
      trace = [WgAdd 0, GaugeOpened 0, Go (SessionG 0), Go (WatcherG 0),
               ConnLog 0 LInfo ''Accept'', HandleConnection 0],
      crashed = None\<rparr>"
  by (simp add: sched_in_handler_def exec_def step_def accept_entry_def accept_iteration_def
        session_step_def emit_def set_session_def new_session_def Let_def)

lemma watcher_kill_branch:
  assumes n: "n < length (sessions s)" and w: "wpc (sessions s ! n) = WSelect"
    and c: "crashed s = None" and k: "kill (prx s) = Closed"
    and d: "done_ch (sessions s ! n) = Open"
  shows "exec [WatcherStep n b, WatcherStep n b'] s
         = s\<lparr>sessions := (sessions s)[n := (sessions s ! n)\<lparr>sock_open := False, wpc := WExit\<rparr>],
             trace := trace s @ ConnClose n ByWatcher #
                        (if sock_open (sessions s ! n)
                         then [ConnLog n LWarn ''Force closed connection''] else [])\<rparr>"
  using assms
  by (simp add: exec_def step_def watcher_step_def emit_def set_session_def Let_def)

lemma watcher_done_branch:
  assumes n: "n < length (sessions s)" and w: "wpc (sessions s ! n) = WSelect"
    and c: "crashed s = None" and k: "kill (prx s) = Open"
    and d: "done_ch (sessions s ! n) = Closed"
  shows "step (WatcherStep n b) s
         = s\<lparr>sessions := (sessions s)[n := (sessions s ! n)\<lparr>wpc := WExit\<rparr>]\<rparr>"
  using assms
  by (simp add: step_def watcher_step_def set_session_def Let_def)

lemma watcher_blocked:
  assumes n: "n < length (sessions s)" and w: "wpc (sessions s ! n) = WSelect"
    and c: "crashed s = None" and k: "kill (prx s) = Open"
    and d: "done_ch (sessions s ! n) = Open"
  shows "step (WatcherStep n b) s = s"
  using assms
  by (simp add: step_def watcher_step_def set_session_def Let_def)

lemma exec_kill_in_handler:
  "exec sched_kill_in_handler (accept_entry proxy_tcp [])
   = \<lparr>prx = proxy_tcp\<lparr>quit := Closed, kill := Closed\<rparr>,
      listener_open = True, qw_exited = False, apc = ALoop, wg = 1, gauge = 1,
      sessions = [\<lparr>sock_open = True, done_ch = Open, spc = SHandle, wpc = WSelect\<rparr>],
      trace = [WgAdd 0, GaugeOpened 0, Go (SessionG 0), Go (WatcherG 0),
               ConnLog 0 LInfo ''Accept'', HandleConnection 0],
      crashed = None\<rparr>"
  by (simp add: sched_kill_in_handler_def exec_def step_def accept_entry_def
        accept_iteration_def session_step_def emit_def set_session_def new_session_def Let_def
        do_call_def Kill_eq)

lemma accept_error_open:
  assumes "crashed s = None" "apc s = ALoop" "quit (prx s) = Open"
  shows "step (AcceptReturns (AErr e)) s
         = s\<lparr>trace := trace s @ [Log LError ''Failed to accept incoming connection''
                                   [(''error'', e)]]\<rparr>"
  using assms by (simp add: step_def accept_iteration_def emit_def)

lemma accept_error_closed:
  assumes "crashed s = None" "apc s = ALoop" "quit (prx s) = Closed"
  shows "step (AcceptReturns (AErr e)) s
         = s\<lparr>apc := AWait None,
             trace := trace s @ [Log LInfo ''Waiting for open connections'' []]\<rparr>"
  using assms by (simp add: step_def accept_iteration_def emit_def)

lemma listen_error_iff:
  "(ret (listen p u bind sched) = Returns (Some e)) = (bind = Returns (Inl e))"
  by (auto simp: listen_def Let_def split: outcome.splits sum.splits)

lemma listen_nil_iff:
  "(ret (listen p u bind sched) = Returns None)
   = ((\<exists>l. bind = Returns (Inr l)) \<and> accept_outcome (listen_serving p sched) = Returns ())"
  by (auto simp: listen_def Let_def split: outcome.splits sum.splits)

lemma accept_run_state_inv: "state_inv (accept_run sched (accept_entry p tr))"
  by (rule accept_run_preserves[of state_inv]) (simp_all add: state_inv_step state_inv_entry)

lemma accept_exit_quit:
  "accept_outcome (listen_serving p sched) = Returns () \<Longrightarrow>
   quit (prx (listen_serving p sched)) = Closed"
  using accept_run_state_inv[of sched p "listen_prelude p @ [Go QuitWatcherG]"]
  by (auto simp: accept_outcome_def listen_serving_def state_inv_def
           split: if_splits apc.splits option.splits)

lemma accept_error_then_drained:
  assumes "crashed s = None" "apc s = ALoop" "quit (prx s) = Closed" "wg s = 0"
  shows "apc (exec [AcceptReturns (AErr e), WaitReturns] s) = AExit None"
  using assms by (simp add: exec_def step_def accept_iteration_def wait_returns_def emit_def)

lemma listen_graceful:
  "listen proxy_tcp 18 (Returns (Inr ())) sched_graceful
   = \<lparr>events = [NetListen ''tcp'' '':27016'', Go QuitWatcherG,
                Log LError ''Failed to accept incoming connection''
                  [(''error'', ''too many open files'')],
                ListenerClose,
                Log LInfo ''Waiting for open connections'' [],
                ListenerClose],
      ret = Returns None\<rparr>"
  by (simp add: listen_def listen_serving_def listen_prelude_def deferred_umask_def
        sched_graceful_def proxy_tcp_def accept_entry_def accept_outcome_def step_def
        accept_iteration_def wait_returns_def quit_watcher_def do_call_def Shutdown_eq emit_def
        Let_def)

section \<open>Events of listen and run\<close>

lemma extends_refl: "extends_serving s s"
  by (simp add: extends_serving_def)

lemma extends_trans: "extends_serving s t \<Longrightarrow> extends_serving t u \<Longrightarrow> extends_serving s u"
  by (auto simp: extends_serving_def)

lemma extends_accept_iteration: "extends_serving s (accept_iteration r s)"
  by (auto simp: extends_serving_def accept_iteration_def emit_def Let_def
           split: accept_result.splits)

lemma extends_session_step: "extends_serving s (session_step n s)"
  by (auto simp: extends_serving_def session_step_def emit_def Let_def set_session_def
             crash_def
           split: spc.splits sum.splits)

lemma extends_watcher_step: "extends_serving s (watcher_step n b s)"
  by (auto simp: extends_serving_def watcher_step_def emit_def Let_def set_session_def
           split: wpc.splits)

lemma extends_step: "extends_serving s (step a s)"
proof (cases a)
  case (AcceptReturns r)
  then show ?thesis by (simp add: step_def extends_accept_iteration extends_refl)
next
  case WaitReturns
  then show ?thesis
    by (auto simp: step_def wait_returns_def extends_serving_def split: apc.splits)
next
  case QuitWatcher
  then show ?thesis
    by (auto simp: step_def quit_watcher_def extends_serving_def emit_def)
next
  case (SessionStep n)
  then show ?thesis by (simp add: step_def extends_session_step extends_refl)
next
  case (HandlerReturns n)
  then show ?thesis
    by (auto simp: step_def handler_returns_def set_session_def extends_serving_def)
next
  case (HandlerPanics n r)
  then show ?thesis
    by (auto simp: step_def handler_panics_def crash_def extends_serving_def)
next
  case (WatcherStep n b)
  then show ?thesis by (simp add: step_def extends_watcher_step extends_refl)
next
  case DoShutdown
  then show ?thesis
    by (auto simp: step_def do_call_def Shutdown_eq extends_serving_def)
next
  case DoKill
  then show ?thesis
    by (auto simp: step_def do_call_def Kill_eq extends_serving_def)
qed

lemma extends_accept_run: "extends_serving s (accept_run acts s)"
proof (induction acts arbitrary: s)
  case Nil
  then show ?case by (simp add: extends_refl)
next
  case (Cons a acts)
  show ?case
  proof (cases "apc s")
    case (AExit r)
    then show ?thesis by (simp add: extends_refl)
  next
    case ALoop
    then show ?thesis using extends_trans[OF extends_step Cons.IH] by simp
  next
    case (AWait r)
    then show ?thesis using extends_trans[OF extends_step Cons.IH] by simp
  qed
qed

lemma listen_serving_trace:
  "\<exists>ev. trace (listen_serving p sched) = listen_prelude p @ Go QuitWatcherG # ev \<and>
        list_all serving_event ev"
  using extends_accept_run[of "accept_entry p (listen_prelude p @ [Go QuitWatcherG])" sched]
  by (auto simp: extends_serving_def listen_serving_def accept_entry_def)

lemma serving_not_sys: "serving_event e \<Longrightarrow> \<not> sys_event e"
  by (cases e) simp_all

lemma serving_not_run: "serving_event e \<Longrightarrow> \<not> run_event e"
  by (cases e) simp_all

lemma filter_sys_serving: "list_all serving_event ev \<Longrightarrow> filter sys_event ev = []"
  by (induction ev) (simp_all add: serving_not_sys)

lemma mask_after_append: "mask_after m (xs @ ys) = mask_after (mask_after m xs) ys"
proof (induction xs arbitrary: m)
  case Nil
  then show ?case by simp
next
  case (Cons e xs)
  then show ?case by (cases e) simp_all
qed

lemma listen_events_shape:
  "\<exists>mid. list_all serving_event mid \<and>
         events (listen p u bind sched)
         = listen_prelude p @ mid @
           (if ret (listen p u bind sched) = Never then [] else deferred_umask p u) \<and>
         ((\<forall>l. bind \<noteq> Returns (Inr l)) \<longrightarrow> mid = [])"
proof (cases bind)
  case Never
  then show ?thesis by (simp add: listen_def)
next
  case (Panics r)
  then show ?thesis by (simp add: listen_def)
next
  case (Returns x)
  show ?thesis
  proof (cases x)
    case (Inl err)
    then show ?thesis using Returns by (simp add: listen_def)
  next
    case (Inr l)
    obtain ev where ev: "trace (listen_serving p sched) = listen_prelude p @ Go QuitWatcherG # ev"
      "list_all serving_event ev"
      using listen_serving_trace[of p sched] by blast
    show ?thesis
    proof (cases "accept_outcome (listen_serving p sched)")
      case Never
      then show ?thesis using Returns Inr ev
        by (intro exI[of _ "Go QuitWatcherG # ev"]) (simp add: listen_def Let_def)
    next
      case (Panics r)
      then show ?thesis using Returns Inr ev
        by (intro exI[of _ "Go QuitWatcherG # ev @ [ListenerClose]"])
           (simp add: listen_def Let_def)
    next
      case (Returns v)
      then show ?thesis using \<open>bind = Returns x\<close> Inr ev
        by (intro exI[of _ "Go QuitWatcherG # ev @ [ListenerClose]"])
           (simp add: listen_def Let_def)
    qed
  qed
qed

lemma has_prefix_iff: "has_prefix s sub = (\<exists>post. s = sub @ post)"
  by (induction s sub rule: has_prefix.induct) auto

lemma Contains_iff: "Contains s sub = (\<exists>pre post. s = pre @ sub @ post)"
proof (induction s)
  case Nil
  then show ?case by auto
next
  case (Cons x xs)
  show ?case
  proof
    assume "Contains (x # xs) sub"
    then consider "has_prefix (x # xs) sub" | "Contains xs sub" by auto
    then show "\<exists>pre post. x # xs = pre @ sub @ post"
    proof cases
      case 1
      then obtain post where "x # xs = sub @ post" by (auto simp: has_prefix_iff)
      then have "x # xs = [] @ sub @ post" by simp
      then show ?thesis by blast
    next
      case 2
      then obtain pre post where "xs = pre @ sub @ post" using Cons.IH by blast
      then have "x # xs = (x # pre) @ sub @ post" by simp
      then show ?thesis by blast
    qed
  next
    assume "\<exists>pre post. x # xs = pre @ sub @ post"
    then obtain pre post where pp: "x # xs = pre @ sub @ post" by blast
    show "Contains (x # xs) sub"
    proof (cases pre)
      case Nil
      then have "has_prefix (x # xs) sub" using pp by (auto simp: has_prefix_iff)
      then show ?thesis by simp
    next
      case (Cons y ys)
      then have "xs = ys @ sub @ post" using pp by simp
      then have "Contains xs sub" using Cons.IH by blast
      then show ?thesis by simp
    qed
  qed
qed

lemma mask_after_quiet:
  "(\<forall>e \<in> set es. \<forall>m. e \<noteq> SysUmask m) \<Longrightarrow> mask_after m0 es = m0"
proof (induction es)
  case Nil
  then show ?case by simp
next
  case (Cons e es)
  then show ?case by (cases e) simp_all
qed

lemma serving_quiet: "list_all serving_event ev \<Longrightarrow> \<forall>e \<in> set ev. \<forall>m. e \<noteq> SysUmask m"
  by (auto simp: list_all_iff)

lemma mask_zero_inside:
  assumes q: "\<forall>e \<in> set R. \<forall>m. e \<noteq> SysUmask m"
    and fin: "fin = [] \<or> fin = [SysUmask u]"
    and k: "0 < k" "k < length (SysUmask 0 # R @ fin)"
  shows "mask_after u (take k (SysUmask 0 # R @ fin)) = 0"
proof -
  obtain j where j: "k = Suc j" using k(1) by (cases k) simp_all
  have tk: "take j (R @ fin) = take j R" using fin k(2) j by auto
  have "\<forall>e \<in> set (take j R). \<forall>m. e \<noteq> SysUmask m"
    using q set_take_subset[of j R] by blast
  then have "mask_after 0 (take j R) = 0" by (rule mask_after_quiet)
  then have "mask_after 0 (take j (R @ fin)) = 0" by (simp only: tk)
  then show ?thesis unfolding j by (simp del: take_append)
qed

lemma listen_unix_serve_then_shutdown:
  "listen proxy_unix 18 (Returns (Inr ())) sched_serve_then_shutdown
   = \<lparr>events = [SysUmask 0, SysUnlink ''/var/tmp/mongobetween.sock'',
                NetListen ''unix'' ''/var/tmp/mongobetween.sock'', Go QuitWatcherG,
                WgAdd 0, GaugeOpened 0, Go (SessionG 0), Go (WatcherG 0),
                ConnLog 0 LInfo ''Accept'', HandleConnection 0, ConnClose 0 BySession,
                ConnLog 0 LInfo ''Close'', CloseDone 0, WgDone 0, ListenerClose,
                Log LInfo ''Waiting for open connections'' [],
                ListenerClose, SysUmask 18],
      ret = Returns None\<rparr>"
  by (simp add: listen_def listen_serving_def listen_prelude_def deferred_umask_def
        sched_serve_then_shutdown_def proxy_unix_def accept_entry_def accept_outcome_def
        step_def accept_iteration_def wait_returns_def quit_watcher_def do_call_def Shutdown_eq
        session_step_def handler_returns_def emit_def set_session_def new_session_def
        close_chan_def Let_def)

lemma listen_no_run_event: "e \<in> set (events (listen p u bind sched)) \<Longrightarrow> \<not> run_event e"
proof -
  assume m: "e \<in> set (events (listen p u bind sched))"
  obtain mid where mid: "list_all serving_event mid"
    "events (listen p u bind sched)
     = listen_prelude p @ mid @
       (if ret (listen p u bind sched) = Never then [] else deferred_umask p u)"
    using listen_events_shape[of p u bind sched] by blast
  have "e \<in> set (listen_prelude p) \<or> e \<in> set mid \<or> e \<in> set (deferred_umask p u)"
    using m mid(2) by (auto split: if_splits)
  then show ?thesis
    using mid(1) serving_not_run[of e]
    by (auto simp: listen_prelude_def deferred_umask_def list_all_iff split: if_splits)
qed







lemma run_ret_Never: "(ret (run p e) = Never) = (ret (run_body p e) = Never)"
  by (simp add: run_def Let_def split: outcome.splits)

lemma run_count_close:
  "count_list (events (run p e)) (MongoClose u) = count_list (events (run_body p e)) (MongoClose u)"
  by (simp add: run_def Let_def split: outcome.splits)

lemma listen_count_close: "count_list (events (listen p u bind sched)) (MongoClose v) = 0"
  using listen_no_run_event[of "MongoClose v" p u bind sched]
  by (auto simp: count_list_0_iff)

lemma listen_no_connect: "MongoConnect v \<notin> set (events (listen p u bind sched))"
  using listen_no_run_event[of "MongoConnect v" p u bind sched] by auto

lemma run_body_count_primary:
  "ret (run_body p e) \<noteq> Never \<Longrightarrow>
   count_list (events (run_body p e)) (MongoClose Primary)
   = (if connect_primary e = Returns (Inr ()) then 1 else 0)"
  by (auto simp: run_body_def listen_env_def Let_def listen_count_close
           split: outcome.splits sum.splits option.splits if_splits)

lemma run_body_count_failover:
  "ret (run_body p e) \<noteq> Never \<Longrightarrow>
   count_list (events (run_body p e)) (MongoClose Failover)
   = (if connect_primary e = Returns (Inr ()) \<and> failover p \<noteq> None \<and>
         connect_failover e = Returns (Inr ()) then 1 else 0)"
  by (auto simp: run_body_def listen_env_def Let_def listen_count_close
           split: outcome.splits sum.splits option.splits if_splits)

lemma run_no_failover_contact:
  "failover p = None \<or> connect_primary e \<noteq> Returns (Inr ()) \<Longrightarrow>
   MongoConnect Failover \<notin> set (events (run p e))"
  using listen_no_connect[of Failover p "umask e" "net_Listen e" "schedule e"]
  by (auto simp: run_def run_body_def listen_env_def Let_def
           split: outcome.splits sum.splits option.splits if_splits)

lemma proxy_unix_failover: "failover proxy_unix = Some ''mongodb://failover''"
  by (simp add: proxy_unix_def)


lemma Contains_unix: "Contains (network proxy_unix) ''unix''"
  by (simp add: proxy_unix_def)

lemma listen_unixpacket_blocked:
  "ret (listen (proxy_unix\<lparr>network := ''unixpacket''\<rparr>) 18 (Returns (Inr ())) []) = Never"
  by (simp add: listen_def listen_serving_def accept_outcome_def accept_entry_def Let_def)

lemma listen_unixgram_fails:
  "ret (listen (proxy_tcp\<lparr>network := ''unixgram''\<rparr>) 18
          (Returns (Inl ''unknown network unixgram'')) [])
   = Returns (Some ''unknown network unixgram'')"
  by (simp add: listen_def)

lemma Run_unix_serve:
  "Run proxy_unix (env_ok\<lparr>schedule := sched_serve_then_shutdown\<rparr>)
   = \<lparr>events = [MongoConnect Primary, MongoConnect Failover,
                SysUmask 0, SysUnlink ''/var/tmp/mongobetween.sock'',
                NetListen ''unix'' ''/var/tmp/mongobetween.sock'', Go QuitWatcherG,
                WgAdd 0, GaugeOpened 0, Go (SessionG 0), Go (WatcherG 0),
                ConnLog 0 LInfo ''Accept'', HandleConnection 0, ConnClose 0 BySession,
                ConnLog 0 LInfo ''Close'', CloseDone 0, WgDone 0, ListenerClose,
                Log LInfo ''Waiting for open connections'' [],
                ListenerClose, SysUmask 18, MongoClose Failover, MongoClose Primary],
      ret = Returns None\<rparr>"
  by (simp add: Run_def run_def run_body_def listen_env_def env_ok_def
        listen_unix_serve_then_shutdown proxy_unix_failover Let_def)




section \<open>The claims\<close>

text \<open>
  C7. Take a proxy as \<open>NewProxy\<close> makes it and let any number of goroutines call
  \<open>Shutdown\<close> and \<open>Kill\<close>, one after the other or at the same time, in any interleaving
  of their atomic steps. No call raises a panic to its caller; each of the two
  channels goes from open to closed at most once; as soon as one call has returned,
  \<open>p.quit\<close> has made exactly one effective transition, and as soon as one \<open>Kill\<close> has
  returned, so has \<open>p.kill\<close>. Taken alone, \<open>Shutdown\<close> and \<open>Kill\<close> return normally in
  every state of the proxy, closed channels included.
\<close>

theorem shutdown_kill_close_once:
  "NewProxy te label nw addr ul pg os fo = Inr p \<Longrightarrow>
     (let s = sexec acts (sinit p) in
        raised s = [] \<and>
        count_list (effective s) StepShutdown \<le> 1 \<and>
        count_list (effective s) StepCloseKill \<le> 1 \<and>
        ((\<exists>c. (c, []) \<in> set (callers s)) \<longrightarrow> count_list (effective s) StepShutdown = 1) \<and>
        ((CallKill, []) \<in> set (callers s) \<longrightarrow> count_list (effective s) StepCloseKill = 1)) \<and>
     (\<exists>q'. Shutdown q = Returns q') \<and> (\<exists>q'. Kill q = Returns q')"
proof -
  assume np: "NewProxy te label nw addr ul pg os fo = Inr p"
  have inv: "sig_inv (sexec acts (sinit p))"
    using NewProxy_open[OF np] by (simp add: sig_inv_init sig_inv_sexec)
  have a: "raised (sexec acts (sinit p)) = []" using inv by (simp add: sig_inv_def)
  have b: "count_list (effective (sexec acts (sinit p))) StepShutdown \<le> 1"
    using inv by (simp add: sig_inv_def)
  have c: "count_list (effective (sexec acts (sinit p))) StepCloseKill \<le> 1"
    using inv by (simp add: sig_inv_def)
  have d: "(\<exists>c. (c, []) \<in> set (callers (sexec acts (sinit p)))) \<longrightarrow>
           count_list (effective (sexec acts (sinit p))) StepShutdown = 1"
    using inv caller_done_quit[OF inv] by (auto simp: sig_inv_def)
  have e: "(CallKill, []) \<in> set (callers (sexec acts (sinit p))) \<longrightarrow>
           count_list (effective (sexec acts (sinit p))) StepCloseKill = 1"
    using inv kill_done_kill[OF inv] by (auto simp: sig_inv_def)
  show ?thesis using a b c d e by (simp add: Let_def Shutdown_eq Kill_eq)
qed

theorem shutdown_kill_close_once_witness:
  "NewProxy None [] ''tcp'' '':27016'' False False ''mongodb://primary'' None = Inr proxy_tcp \<and>
   (let s = sexec [Enter CallShutdown, Enter CallKill, Advance 1, Advance 0, Advance 1,
                   Enter CallShutdown, Advance 2] (sinit proxy_tcp)
    in (CallShutdown, []) \<in> set (callers s) \<and> (CallKill, []) \<in> set (callers s) \<and>
       raised s = [] \<and>
       count_list (effective s) StepShutdown = 1 \<and> count_list (effective s) StepCloseKill = 1)"
proof -
  let ?acts = "[Enter CallShutdown, Enter CallKill, Advance 1, Advance 0, Advance 1,
                Enter CallShutdown, Advance 2]"
  have h0: "(CallShutdown, []) \<in> set (callers (sexec ?acts (sinit proxy_tcp)))"
    unfolding sexec_three_callers by simp
  have h1: "(CallKill, []) \<in> set (callers (sexec ?acts (sinit proxy_tcp)))"
    unfolding sexec_three_callers by simp
  from shutdown_kill_close_once[OF NewProxy_tcp, of ?acts proxy_tcp] h0 h1 NewProxy_tcp
  show ?thesis unfolding Let_def by blast
qed

text \<open>
  C8. A call of \<open>Kill\<close> returns, in every state of the proxy, with \<open>p.quit\<close> and \<open>p.kill\<close>
  both closed, whether or not \<open>Shutdown\<close> was called before. And in every state that
  concurrent callers of \<open>Shutdown\<close> and \<open>Kill\<close> can reach from a new proxy, \<open>p.kill\<close>
  closed implies \<open>p.quit\<close> closed.
\<close>

theorem kill_implies_quit:
  "NewProxy te label nw addr ul pg os fo = Inr p \<Longrightarrow>
     (\<exists>q'. Kill q = Returns q' \<and> quit q' = Closed \<and> kill q' = Closed) \<and>
     (kill (sp (sexec acts (sinit p))) = Closed \<longrightarrow> quit (sp (sexec acts (sinit p))) = Closed)"
proof -
  assume np: "NewProxy te label nw addr ul pg os fo = Inr p"
  have inv: "sig_inv (sexec acts (sinit p))"
    using NewProxy_open[OF np] by (simp add: sig_inv_init sig_inv_sexec)
  then have "kill (sp (sexec acts (sinit p))) = Closed \<longrightarrow>
             quit (sp (sexec acts (sinit p))) = Closed"
    by (simp add: sig_inv_def)
  then show ?thesis by (simp add: Kill_eq)
qed

theorem kill_implies_quit_witness:
  "NewProxy None [] ''tcp'' '':27016'' False False ''mongodb://primary'' None = Inr proxy_tcp \<and>
   kill (sp (sexec [Enter CallKill, Advance 0, Advance 0] (sinit proxy_tcp))) = Closed \<and>
   quit (sp (sexec [Enter CallKill, Advance 0, Advance 0] (sinit proxy_tcp))) = Closed"
proof -
  have k: "kill (sp (sexec [Enter CallKill, Advance 0, Advance 0] (sinit proxy_tcp))) = Closed"
    unfolding sexec_kill_only by simp
  from kill_implies_quit[OF NewProxy_tcp, of proxy_tcp "[Enter CallKill, Advance 0, Advance 0]"]
    k NewProxy_tcp
  show ?thesis by blast
qed

text \<open>
  C9. In every state that any schedule reaches after \<open>accept\<close> was entered: the gauge
  is never negative and equals the number of sessions that have not run to their end,
  so it is 0 when no session is running. For every accepted connection the events of
  its session are, in this order, a prefix of \<open>session_events\<close>: the gauge is
  incremented before the session goroutine is started, and decremented last, after
  the socket was closed, \<open>done\<close> was closed and \<open>wg.Done()\<close> was called. The increment
  occurs exactly once, the decrement exactly once when the session has run to its end
  and not before; nothing of the kind is recorded for a number no connection has.
\<close>

theorem gauge_counts_live_sessions:
  "let s = exec acts (accept_entry p []) in
     0 \<le> gauge s \<and>
     gauge s = int (length (filter (\<lambda>c. spc c \<noteq> SExit) (sessions s))) \<and>
     ((\<forall>c \<in> set (sessions s). spc c = SExit) \<longrightarrow> gauge s = 0) \<and>
     (\<forall>n. length (sessions s) \<le> n \<longrightarrow> own n (trace s) = []) \<and>
     (\<forall>n < length (sessions s).
        own n (trace s) = take (progress (spc (sessions s ! n))) (session_events n) \<and>
        count_list (trace s) (GaugeOpened n) = 1 \<and>
        count_list (trace s) (GaugeClosed n) = (if spc (sessions s ! n) = SExit then 1 else 0))"
proof -
  let ?s = "exec acts (accept_entry p [])"
  have si: "state_inv ?s" by (rule state_inv_exec)
  have ti: "trace_inv ?s" by (rule trace_inv_exec)
  have g: "gauge ?s = int (length (filter (\<lambda>c. spc c \<noteq> SExit) (sessions ?s)))"
    using si by (simp add: state_inv_def sum_counted)
  have q: "(\<forall>c \<in> set (sessions ?s). spc c = SExit) \<longrightarrow> gauge ?s = 0"
    using g by (simp add: filter_empty_conv)
  have o: "\<And>n. own n (trace ?s) =
           (if n < length (sessions ?s)
            then take (progress (spc (sessions ?s ! n))) (session_events n) else [])"
    using ti by (simp add: trace_inv_def)
  have c1: "count_list (trace ?s) (GaugeOpened n) = 1" if "n < length (sessions ?s)" for n
    using that o[of n] count_own[of "GaugeOpened n" n "trace ?s"]
    by (simp add: count_opened_prefix) (simp add: session_events_def)
  have c2: "count_list (trace ?s) (GaugeClosed n) = (if spc (sessions ?s ! n) = SExit then 1 else 0)"
    if "n < length (sessions ?s)" for n
    using that o[of n] count_own[of "GaugeClosed n" n "trace ?s"]
    by (simp add: count_closed_prefix) (simp add: session_events_def)
  show ?thesis
    unfolding Let_def using g q o c1 c2 by simp
qed

theorem gauge_counts_live_sessions_witness:
  "map spc (sessions (exec sched_one_session (accept_entry proxy_tcp []))) = [SExit] \<and>
   gauge (exec sched_one_session (accept_entry proxy_tcp [])) = 0 \<and>
   count_list (trace (exec sched_one_session (accept_entry proxy_tcp []))) (GaugeOpened 0) = 1 \<and>
   count_list (trace (exec sched_one_session (accept_entry proxy_tcp []))) (GaugeClosed 0) = 1"
proof -
  let ?s = "exec sched_one_session (accept_entry proxy_tcp [])"
  note T = gauge_counts_live_sessions[of sched_one_session proxy_tcp, unfolded Let_def]
  have m: "map spc (sessions ?s) = [SExit]" unfolding exec_one_session by simp
  have x: "\<forall>c \<in> set (sessions ?s). spc c = SExit" unfolding exec_one_session by simp
  have e: "spc (sessions ?s ! 0) = SExit" unfolding exec_one_session by simp
  have z: "(0::nat) < length (sessions ?s)" unfolding exec_one_session by simp
  have g0: "gauge ?s = 0" using T x by blast
  have cnt: "count_list (trace ?s) (GaugeOpened 0) = 1 \<and>
             count_list (trace ?s) (GaugeClosed 0) = (if spc (sessions ?s ! 0) = SExit then 1 else 0)"
    using T z by blast
  show ?thesis using m g0 cnt e by simp
qed

text \<open>
  C1, as the code has it. In every state a schedule can reach, for every accepted
  connection: if its session is inside the handler and the handler returns, the next
  three statements of the session close the socket, log, and close \<open>done\<close>, in this
  order, and the program goes on; and at no time is \<open>done\<close> closed while the socket is
  still open. Nothing is said of a handler that panics: the session goroutine defers
  nothing.
\<close>

theorem session_closes_then_signals_done:
  "n < length (sessions (exec acts (accept_entry p tr))) \<Longrightarrow>
   (spc (sessions (exec acts (accept_entry p tr)) ! n) = SHandle \<and>
    crashed (exec acts (accept_entry p tr)) = None \<longrightarrow>
      exec [HandlerReturns n, SessionStep n, SessionStep n, SessionStep n]
           (exec acts (accept_entry p tr))
      = (exec acts (accept_entry p tr))
          \<lparr>sessions := (sessions (exec acts (accept_entry p tr)))
                         [n := (sessions (exec acts (accept_entry p tr)) ! n)
                                 \<lparr>sock_open := False, done_ch := Closed, spc := SWgDone\<rparr>],
           trace := trace (exec acts (accept_entry p tr))
                    @ [ConnClose n BySession, ConnLog n LInfo ''Close'', CloseDone n]\<rparr>) \<and>
   (done_ch (sessions (exec acts (accept_entry p tr)) ! n) = Closed \<longrightarrow>
      \<not> sock_open (sessions (exec acts (accept_entry p tr)) ! n))"
proof -
  let ?s = "exec acts (accept_entry p tr)"
  assume n: "n < length (sessions ?s)"
  have si: "state_inv ?s" by (rule state_inv_exec)
  show ?thesis
    using session_run_after_handler[OF n _ _ state_inv_done_open[OF si n]]
      state_inv_done_sock[OF si n]
    by blast
qed

theorem session_closes_then_signals_done_witness:
  "spc (sessions (exec sched_in_handler (accept_entry proxy_tcp [])) ! 0) = SHandle \<and>
   trace (exec [HandlerReturns 0, SessionStep 0, SessionStep 0, SessionStep 0]
            (exec sched_in_handler (accept_entry proxy_tcp [])))
   = [WgAdd 0, GaugeOpened 0, Go (SessionG 0), Go (WatcherG 0),
      ConnLog 0 LInfo ''Accept'', HandleConnection 0,
      ConnClose 0 BySession, ConnLog 0 LInfo ''Close'', CloseDone 0]"
proof -
  let ?s = "exec sched_in_handler (accept_entry proxy_tcp [])"
  have n: "0 < length (sessions ?s)" unfolding exec_in_handler by simp
  have h: "spc (sessions ?s ! 0) = SHandle" unfolding exec_in_handler by simp
  have c: "crashed ?s = None" unfolding exec_in_handler by simp
  have t: "trace ?s = [WgAdd 0, GaugeOpened 0, Go (SessionG 0), Go (WatcherG 0),
                       ConnLog 0 LInfo ''Accept'', HandleConnection 0]"
    unfolding exec_in_handler by simp
  from session_closes_then_signals_done[OF n] h c
  have "exec [HandlerReturns 0, SessionStep 0, SessionStep 0, SessionStep 0] ?s
        = ?s\<lparr>sessions := (sessions ?s)[0 := (sessions ?s ! 0)
                                 \<lparr>sock_open := False, done_ch := Closed, spc := SWgDone\<rparr>],
              trace := trace ?s @ [ConnClose 0 BySession, ConnLog 0 LInfo ''Close'', CloseDone 0]\<rparr>"
    by blast
  then show ?thesis using h t by simp
qed

text \<open>
  C1 as it is stated fails when the handler ends by a panic: the panic is recovered by
  nobody, the program is gone, the socket was not closed and \<open>done\<close> was not closed,
  and scheduling the session again changes nothing.
\<close>

theorem handler_panic_counterexample:
  "crashed (exec sched_handler_panics (accept_entry proxy_tcp [])) = Some ''boom'' \<and>
   sock_open (sessions (exec sched_handler_panics (accept_entry proxy_tcp [])) ! 0) \<and>
   done_ch (sessions (exec sched_handler_panics (accept_entry proxy_tcp [])) ! 0) = Open \<and>
   trace (exec (sched_handler_panics @ [SessionStep 0, SessionStep 0, SessionStep 0])
            (accept_entry proxy_tcp []))
   = [WgAdd 0, GaugeOpened 0, Go (SessionG 0), Go (WatcherG 0),
      ConnLog 0 LInfo ''Accept'', HandleConnection 0]"
  by (simp add: sched_handler_panics_def exec_def step_def accept_entry_def accept_iteration_def
        session_step_def handler_panics_def crash_def emit_def set_session_def new_session_def
        Let_def)

text \<open>
  C6, as the code has it. A watcher in its \<open>select\<close>: if \<open>p.kill\<close> is closed and \<open>done\<close>
  is not, it closes the connection and leaves, and it logs the forced close only when
  that close reported no error, that is, when the socket was still open; if \<open>done\<close>
  is closed and \<open>p.kill\<close> is not, it leaves without closing or logging anything; if
  neither is closed it stays blocked.
\<close>

theorem watcher_race:
  "n < length (sessions s) \<and> wpc (sessions s ! n) = WSelect \<and> crashed s = None \<Longrightarrow>
   (kill (prx s) = Closed \<and> done_ch (sessions s ! n) = Open \<longrightarrow>
      exec [WatcherStep n b, WatcherStep n b'] s
      = s\<lparr>sessions := (sessions s)[n := (sessions s ! n)\<lparr>sock_open := False, wpc := WExit\<rparr>],
          trace := trace s @ ConnClose n ByWatcher #
                     (if sock_open (sessions s ! n)
                      then [ConnLog n LWarn ''Force closed connection''] else [])\<rparr>) \<and>
   (done_ch (sessions s ! n) = Closed \<and> kill (prx s) = Open \<longrightarrow>
      step (WatcherStep n b) s
      = s\<lparr>sessions := (sessions s)[n := (sessions s ! n)\<lparr>wpc := WExit\<rparr>]\<rparr>) \<and>
   (done_ch (sessions s ! n) = Open \<and> kill (prx s) = Open \<longrightarrow>
      step (WatcherStep n b) s = s)"
  using watcher_kill_branch[of n s b b'] watcher_done_branch[of n s b] watcher_blocked[of n s b]
  by blast

theorem watcher_race_witness:
  "kill (prx (exec sched_kill_in_handler (accept_entry proxy_tcp []))) = Closed \<and>
   done_ch (sessions (exec sched_kill_in_handler (accept_entry proxy_tcp [])) ! 0) = Open \<and>
   trace (exec [WatcherStep 0 True, WatcherStep 0 True]
            (exec sched_kill_in_handler (accept_entry proxy_tcp [])))
   = [WgAdd 0, GaugeOpened 0, Go (SessionG 0), Go (WatcherG 0),
      ConnLog 0 LInfo ''Accept'', HandleConnection 0,
      ConnClose 0 ByWatcher, ConnLog 0 LWarn ''Force closed connection'']"
proof -
  let ?s = "exec sched_kill_in_handler (accept_entry proxy_tcp [])"
  have pre: "0 < length (sessions ?s) \<and> wpc (sessions ?s ! 0) = WSelect \<and> crashed ?s = None"
    unfolding exec_kill_in_handler by simp
  have k: "kill (prx ?s) = Closed" unfolding exec_kill_in_handler by simp
  have d: "done_ch (sessions ?s ! 0) = Open" unfolding exec_kill_in_handler by simp
  have so: "sock_open (sessions ?s ! 0)" unfolding exec_kill_in_handler by simp
  have t: "trace ?s = [WgAdd 0, GaugeOpened 0, Go (SessionG 0), Go (WatcherG 0),
                       ConnLog 0 LInfo ''Accept'', HandleConnection 0]"
    unfolding exec_kill_in_handler by simp
  from watcher_race[OF pre, of True True] k d
  have "exec [WatcherStep 0 True, WatcherStep 0 True] ?s
        = ?s\<lparr>sessions := (sessions ?s)[0 := (sessions ?s ! 0)\<lparr>sock_open := False, wpc := WExit\<rparr>],
             trace := trace ?s @ ConnClose 0 ByWatcher #
                        (if sock_open (sessions ?s ! 0)
                         then [ConnLog 0 LWarn ''Force closed connection''] else [])\<rparr>"
    by blast
  then show ?thesis using k d so t by simp
qed

text \<open>
  C6 as it is stated fails: the session has closed the socket but not yet \<open>done\<close> when
  \<open>Kill\<close> is called; the watcher takes the kill case and closes the connection again,
  the close reports an error, and no forced close is logged.
\<close>

theorem forced_close_not_logged_counterexample:
  "exec sched_kill_after_close (accept_entry proxy_tcp [])
   = \<lparr>prx = proxy_tcp\<lparr>quit := Closed, kill := Closed\<rparr>,
      listener_open = True, qw_exited = False, apc = ALoop, wg = 1, gauge = 1,
      sessions = [\<lparr>sock_open = False, done_ch = Open, spc = SLogClose, wpc = WExit\<rparr>],
      trace = [WgAdd 0, GaugeOpened 0, Go (SessionG 0), Go (WatcherG 0),
               ConnLog 0 LInfo ''Accept'', HandleConnection 0,
               ConnClose 0 BySession, ConnClose 0 ByWatcher],
      crashed = None\<rparr>"
  by (simp add: sched_kill_after_close_def exec_def step_def accept_entry_def
        accept_iteration_def session_step_def handler_returns_def watcher_step_def emit_def
        set_session_def new_session_def Let_def do_call_def Kill_eq)

text \<open>
  C5. \<open>listen\<close> returns an error exactly when \<open>net.Listen\<close> returned that error; it
  returns \<open>nil\<close> exactly when the listener was opened and \<open>accept\<close> returned, and then
  \<open>p.quit\<close> is closed. In the loop, an accept error met while \<open>p.quit\<close> is open is
  logged and the loop goes on; met while \<open>p.quit\<close> is closed it ends the loop without
  an error, and \<open>accept\<close> returns as soon as no session is left to wait for.
\<close>

theorem listen_result_and_accept_errors:
  "((ret (listen p u bind sched) = Returns (Some e)) = (bind = Returns (Inl e))) \<and>
   ((ret (listen p u bind sched) = Returns None)
      = ((\<exists>l. bind = Returns (Inr l)) \<and>
         accept_outcome (listen_serving p sched) = Returns ())) \<and>
   (accept_outcome (listen_serving p sched) = Returns () \<longrightarrow>
      quit (prx (listen_serving p sched)) = Closed) \<and>
   (crashed s = None \<and> apc s = ALoop \<longrightarrow>
      (quit (prx s) = Open \<longrightarrow>
         step (AcceptReturns (AErr e')) s
         = s\<lparr>trace := trace s @ [Log LError ''Failed to accept incoming connection''
                                   [(''error'', e')]]\<rparr>) \<and>
      (quit (prx s) = Closed \<longrightarrow>
         step (AcceptReturns (AErr e')) s
         = s\<lparr>apc := AWait None,
             trace := trace s @ [Log LInfo ''Waiting for open connections'' []]\<rparr> \<and>
         (wg s = 0 \<longrightarrow> apc (exec [AcceptReturns (AErr e'), WaitReturns] s) = AExit None)))"
  using listen_error_iff[of p u bind sched e] listen_nil_iff[of p u bind sched]
    accept_exit_quit[of p sched] accept_error_open[of s e'] accept_error_closed[of s e']
    accept_error_then_drained[of s e']
  by blast

theorem listen_result_and_accept_errors_witness:
  "listen proxy_tcp 18 (Returns (Inr ())) sched_graceful
   = \<lparr>events = [NetListen ''tcp'' '':27016'', Go QuitWatcherG,
                Log LError ''Failed to accept incoming connection''
                  [(''error'', ''too many open files'')],
                ListenerClose,
                Log LInfo ''Waiting for open connections'' [],
                ListenerClose],
      ret = Returns None\<rparr> \<and>
   accept_outcome (listen_serving proxy_tcp sched_graceful) = Returns () \<and>
   quit (prx (listen_serving proxy_tcp sched_graceful)) = Closed \<and>
   crashed (accept_entry proxy_tcp []) = None \<and> apc (accept_entry proxy_tcp []) = ALoop \<and>
   quit (prx (accept_entry proxy_tcp [])) = Open \<and>
   step (AcceptReturns (AErr ''too many open files'')) (accept_entry proxy_tcp [])
   = (accept_entry proxy_tcp [])
       \<lparr>trace := [Log LError ''Failed to accept incoming connection''
                    [(''error'', ''too many open files'')]]\<rparr>"
proof -
  note T = listen_result_and_accept_errors[of proxy_tcp 18 "Returns (Inr ())" sched_graceful
      "''none''" "accept_entry proxy_tcp []" "''too many open files''"]
  have r: "ret (listen proxy_tcp 18 (Returns (Inr ())) sched_graceful) = Returns None"
    unfolding listen_graceful by simp
  have o: "accept_outcome (listen_serving proxy_tcp sched_graceful) = Returns ()"
    using T r by blast
  have q: "quit (prx (listen_serving proxy_tcp sched_graceful)) = Closed"
    using T o by blast
  have a: "crashed (accept_entry proxy_tcp []) = None \<and> apc (accept_entry proxy_tcp []) = ALoop \<and>
           quit (prx (accept_entry proxy_tcp [])) = Open"
    by (simp add: accept_entry_def proxy_tcp_def)
  have st: "step (AcceptReturns (AErr ''too many open files'')) (accept_entry proxy_tcp [])
            = (accept_entry proxy_tcp [])
                \<lparr>trace := trace (accept_entry proxy_tcp []) @
                   [Log LError ''Failed to accept incoming connection''
                      [(''error'', ''too many open files'')]]\<rparr>"
    using T a by blast
  have tr: "trace (accept_entry proxy_tcp []) = []" by (simp add: accept_entry_def)
  show ?thesis using listen_graceful o q a st tr by simp
qed

text \<open>
  C10. The test is \<open>strings.Contains(p.network, "unix")\<close>: it holds exactly when
  \<open>unix\<close> occurs somewhere in the network name. The calls of \<open>listen\<close> that touch the
  process mask or the file system are then, in this order, \<open>Umask(0)\<close>, the unlink of
  the address when \<open>p.unlink\<close> is set, and the restoring \<open>Umask\<close> once \<open>listen\<close> is
  left; for every other network name there is none, whatever happens while serving.
\<close>

theorem unix_handling_by_substring:
  "(Contains (network p) ''unix'') = (\<exists>pre post. network p = pre @ ''unix'' @ post) \<and>
   filter sys_event (events (listen p u bind sched))
   = (if Contains (network p) ''unix''
      then SysUmask 0 # (if unlink p then [SysUnlink (address p)] else []) @
           (if ret (listen p u bind sched) = Never then [] else [SysUmask u])
      else [])"
proof -
  obtain mid where mid: "list_all serving_event mid"
    "events (listen p u bind sched)
     = listen_prelude p @ mid @
       (if ret (listen p u bind sched) = Never then [] else deferred_umask p u)"
    using listen_events_shape[of p u bind sched] by blast
  have "filter sys_event (events (listen p u bind sched))
        = (if Contains (network p) ''unix''
           then SysUmask 0 # (if unlink p then [SysUnlink (address p)] else []) @
                (if ret (listen p u bind sched) = Never then [] else [SysUmask u])
           else [])"
    by (simp add: mid filter_sys_serving listen_prelude_def deferred_umask_def)
  then show ?thesis using Contains_iff[of "network p" "''unix''"] by simp
qed

theorem unix_handling_by_substring_witness:
  "filter sys_event (events (listen (proxy_unix\<lparr>network := ''unixpacket''\<rparr>) 18
                               (Returns (Inr ())) []))
   = [SysUmask 0, SysUnlink ''/var/tmp/mongobetween.sock''] \<and>
   filter sys_event (events (listen (proxy_tcp\<lparr>network := ''unixgram''\<rparr>) 18
                               (Returns (Inl ''unknown network unixgram'')) []))
   = [SysUmask 0, SysUmask 18] \<and>
   filter sys_event (events (listen proxy_tcp 18 (Returns (Inr ())) sched_graceful)) = []"
proof -
  have a: "filter sys_event (events (listen (proxy_unix\<lparr>network := ''unixpacket''\<rparr>) 18
                               (Returns (Inr ())) []))
           = [SysUmask 0, SysUnlink ''/var/tmp/mongobetween.sock'']"
    using unix_handling_by_substring[of "proxy_unix\<lparr>network := ''unixpacket''\<rparr>" 18
        "Returns (Inr ())" "[]"]
    by (simp add: listen_unixpacket_blocked) (simp add: proxy_unix_def)
  have b: "filter sys_event (events (listen (proxy_tcp\<lparr>network := ''unixgram''\<rparr>) 18
                               (Returns (Inl ''unknown network unixgram'')) []))
           = [SysUmask 0, SysUmask 18]"
    using unix_handling_by_substring[of "proxy_tcp\<lparr>network := ''unixgram''\<rparr>" 18
        "Returns (Inl ''unknown network unixgram'')" "[]"]
    by (simp add: listen_unixgram_fails) (simp add: proxy_tcp_def)
  have c: "filter sys_event (events (listen proxy_tcp 18 (Returns (Inr ())) sched_graceful)) = []"
    using unix_handling_by_substring[of proxy_tcp 18 "Returns (Inr ())" sched_graceful]
    by (simp add: proxy_tcp_def)
  show ?thesis using a b c by simp
qed

text \<open>
  C2, as the code has it. For a network name that contains \<open>unix\<close>: \<open>listen\<close> sets the
  mask to 0 before it calls \<open>net.Listen\<close>, and the deferred call restores the mask
  when \<open>listen\<close> is left, by a return or by a panic. After a failed \<open>net.Listen\<close> that
  is at once; after a successful one it is after \<open>accept\<close> has come back and the
  listener was closed. At every point in between the mask is 0, and it stays 0 in a
  \<open>listen\<close> that is never left.
\<close>

theorem umask_restored_when_listen_is_left:
  "Contains (network p) ''unix'' \<Longrightarrow>
   listen_prelude p = SysUmask 0 # (if unlink p then [SysUnlink (address p)] else [])
                        @ [NetListen (network p) (address p)] \<and>
   take (length (listen_prelude p)) (events (listen p u bind sched)) = listen_prelude p \<and>
   (bind = Returns (Inl e) \<or> bind = Panics x \<longrightarrow>
      events (listen p u bind sched) = listen_prelude p @ [SysUmask u]) \<and>
   (bind = Returns (Inr l) \<longrightarrow>
      events (listen p u bind sched)
      = trace (listen_serving p sched) @
        (if ret (listen p u bind sched) = Never then [] else [ListenerClose, SysUmask u])) \<and>
   (\<forall>k. 0 < k \<and> k < length (events (listen p u bind sched)) \<longrightarrow>
        mask_after u (take k (events (listen p u bind sched))) = 0) \<and>
   mask_after u (events (listen p u bind sched))
   = (if ret (listen p u bind sched) = Never then 0 else u)"
proof -
  assume ux: "Contains (network p) ''unix''"
  let ?r = "listen p u bind sched"
  let ?ul = "(if unlink p then [SysUnlink (address p)] else []) @ [NetListen (network p) (address p)]"
  let ?fin = "if ret ?r = Never then [] else [SysUmask u]"
  obtain mid where mid: "list_all serving_event mid"
    "events ?r = listen_prelude p @ mid @ (if ret ?r = Never then [] else deferred_umask p u)"
    using listen_events_shape[of p u bind sched] by blast
  have pre: "listen_prelude p = SysUmask 0 # ?ul" using ux by (simp add: listen_prelude_def)
  have ev: "events ?r = SysUmask 0 # (?ul @ mid) @ ?fin"
    using mid(2) ux by (simp add: pre deferred_umask_def)
  have q: "\<forall>e \<in> set (?ul @ mid). \<forall>m. e \<noteq> SysUmask m"
    using serving_quiet[OF mid(1)] by auto
  have a: "take (length (listen_prelude p)) (events ?r) = listen_prelude p"
    using mid(2) by simp
  have b: "bind = Returns (Inl e) \<or> bind = Panics x \<longrightarrow>
           events ?r = listen_prelude p @ [SysUmask u]"
    using ux by (auto simp: listen_def deferred_umask_def)
  have c: "bind = Returns (Inr l) \<longrightarrow>
           events ?r = trace (listen_serving p sched) @
             (if ret ?r = Never then [] else [ListenerClose, SysUmask u])"
    using ux by (auto simp: listen_def deferred_umask_def Let_def split: outcome.splits)
  have d: "\<forall>k. 0 < k \<and> k < length (events ?r) \<longrightarrow> mask_after u (take k (events ?r)) = 0"
  proof (intro allI impI)
    fix k
    assume "0 < k \<and> k < length (events ?r)"
    then have k: "0 < k" "k < length (SysUmask 0 # (?ul @ mid) @ ?fin)" using ev by simp_all
    have "mask_after u (take k (SysUmask 0 # (?ul @ mid) @ ?fin)) = 0"
      by (rule mask_zero_inside[OF q _ k]) simp
    then show "mask_after u (take k (events ?r)) = 0" using ev by simp
  qed
  have f: "mask_after u (events ?r) = (if ret ?r = Never then 0 else u)"
    using mask_after_quiet[OF q, of 0] by (simp add: ev mask_after_append)
  show ?thesis using pre a b c d f by blast
qed

theorem umask_restored_when_listen_is_left_witness:
  "Contains (network proxy_unix) ''unix'' \<and>
   (0::nat) < 4 \<and>
   4 < length (events (listen proxy_unix 18 (Returns (Inr ())) sched_serve_then_shutdown)) \<and>
   mask_after 18 (take 4 (events (listen proxy_unix 18 (Returns (Inr ()))
                                   sched_serve_then_shutdown))) = 0 \<and>
   ret (listen proxy_unix 18 (Returns (Inr ())) sched_serve_then_shutdown) = Returns None \<and>
   mask_after 18 (events (listen proxy_unix 18 (Returns (Inr ())) sched_serve_then_shutdown))
   = 18"
proof -
  let ?r = "listen proxy_unix 18 (Returns (Inr ())) sched_serve_then_shutdown"
  note T = umask_restored_when_listen_is_left[OF Contains_unix, of 18 "Returns (Inr ())"
      sched_serve_then_shutdown "''none''" "''none''" "()"]
  have l: "4 < length (events ?r)" unfolding listen_unix_serve_then_shutdown by simp
  have r: "ret ?r = Returns None" unfolding listen_unix_serve_then_shutdown by simp
  have z: "(0::nat) < 4" by simp
  have m4: "mask_after 18 (take 4 (events ?r)) = 0" using T l z by blast
  have "mask_after 18 (events ?r) = (if ret ?r = Never then 0 else 18)" using T by blast
  then have mf: "mask_after 18 (events ?r) = 18" using r by simp
  show ?thesis using Contains_unix l r m4 mf by simp
qed

text \<open>
  C2 as it is stated fails when \<open>net.Listen\<close> succeeds: the mask was 18 (octal 022),
  and it is still 0 when the handler of the first connection is called; it is restored
  as the last event of \<open>listen\<close>, after the accept loop.
\<close>

theorem umask_zero_during_accept_counterexample:
  "listen proxy_unix 18 (Returns (Inr ())) sched_serve_then_shutdown
   = \<lparr>events = [SysUmask 0, SysUnlink ''/var/tmp/mongobetween.sock'',
                NetListen ''unix'' ''/var/tmp/mongobetween.sock'', Go QuitWatcherG,
                WgAdd 0, GaugeOpened 0, Go (SessionG 0), Go (WatcherG 0),
                ConnLog 0 LInfo ''Accept'', HandleConnection 0, ConnClose 0 BySession,
                ConnLog 0 LInfo ''Close'', CloseDone 0, WgDone 0, ListenerClose,
                Log LInfo ''Waiting for open connections'' [],
                ListenerClose, SysUmask 18],
      ret = Returns None\<rparr> \<and>
   mask_after 18 [SysUmask 0, SysUnlink ''/var/tmp/mongobetween.sock'',
                  NetListen ''unix'' ''/var/tmp/mongobetween.sock'', Go QuitWatcherG,
                  WgAdd 0, GaugeOpened 0, Go (SessionG 0), Go (WatcherG 0),
                  ConnLog 0 LInfo ''Accept'', HandleConnection 0] = 0"
  using listen_unix_serve_then_shutdown by simp

text \<open>
  C4. If \<open>mongo.Connect\<close> fails for the primary, \<open>Run\<close> returns that error and has done
  nothing else: no failover was contacted, no listener opened. If it fails for the
  failover, \<open>Run\<close> returns that error, has opened no listener and has closed the
  primary. Without a failover configured none is contacted. And whenever \<open>Run\<close>
  returns, each upstream that was established has been closed exactly once, and none
  that was not.
\<close>

theorem run_startup_failures_and_release:
  "(connect_primary e = Returns (Inl err) \<longrightarrow>
      Run p e = \<lparr>events = [MongoConnect Primary], ret = Returns (Some err)\<rparr>) \<and>
   (connect_primary e = Returns (Inr ()) \<and> failover p = Some fo \<and>
    connect_failover e = Returns (Inl err) \<longrightarrow>
      Run p e = \<lparr>events = [MongoConnect Primary, MongoConnect Failover, MongoClose Primary],
                 ret = Returns (Some err)\<rparr>) \<and>
   (failover p = None \<longrightarrow> MongoConnect Failover \<notin> set (events (Run p e))) \<and>
   (ret (Run p e) \<noteq> Never \<longrightarrow>
      count_list (events (Run p e)) (MongoClose Primary)
      = (if connect_primary e = Returns (Inr ()) then 1 else 0) \<and>
      count_list (events (Run p e)) (MongoClose Failover)
      = (if connect_primary e = Returns (Inr ()) \<and> failover p \<noteq> None \<and>
            connect_failover e = Returns (Inr ()) then 1 else 0))"
proof -
  have a: "connect_primary e = Returns (Inl err) \<longrightarrow>
           Run p e = \<lparr>events = [MongoConnect Primary], ret = Returns (Some err)\<rparr>"
    by (simp add: Run_def run_def run_body_def)
  have b: "connect_primary e = Returns (Inr ()) \<and> failover p = Some fo \<and>
           connect_failover e = Returns (Inl err) \<longrightarrow>
           Run p e = \<lparr>events = [MongoConnect Primary, MongoConnect Failover, MongoClose Primary],
                      ret = Returns (Some err)\<rparr>"
    by (simp add: Run_def run_def run_body_def)
  have c: "failover p = None \<longrightarrow> MongoConnect Failover \<notin> set (events (Run p e))"
    using run_no_failover_contact[of p e] by (simp add: Run_def)
  have d: "ret (Run p e) \<noteq> Never \<longrightarrow>
      count_list (events (Run p e)) (MongoClose Primary)
      = (if connect_primary e = Returns (Inr ()) then 1 else 0) \<and>
      count_list (events (Run p e)) (MongoClose Failover)
      = (if connect_primary e = Returns (Inr ()) \<and> failover p \<noteq> None \<and>
            connect_failover e = Returns (Inr ()) then 1 else 0)"
    using run_body_count_primary[of p e] run_body_count_failover[of p e]
    by (simp add: Run_def run_ret_Never run_count_close)
  show ?thesis using a b c d by blast
qed

theorem run_startup_failures_and_release_witness:
  "Run proxy_unix (env_ok\<lparr>connect_primary := Returns (Inl ''primary unreachable'')\<rparr>)
   = \<lparr>events = [MongoConnect Primary], ret = Returns (Some ''primary unreachable'')\<rparr> \<and>
   Run proxy_unix (env_ok\<lparr>connect_failover := Returns (Inl ''failover unreachable'')\<rparr>)
   = \<lparr>events = [MongoConnect Primary, MongoConnect Failover, MongoClose Primary],
      ret = Returns (Some ''failover unreachable'')\<rparr> \<and>
   ret (Run proxy_unix (env_ok\<lparr>schedule := sched_serve_then_shutdown\<rparr>)) = Returns None \<and>
   count_list (events (Run proxy_unix (env_ok\<lparr>schedule := sched_serve_then_shutdown\<rparr>)))
     (MongoClose Primary) = 1 \<and>
   count_list (events (Run proxy_unix (env_ok\<lparr>schedule := sched_serve_then_shutdown\<rparr>)))
     (MongoClose Failover) = 1"
proof -
  let ?e1 = "env_ok\<lparr>connect_primary := Returns (Inl ''primary unreachable'')\<rparr>"
  let ?e2 = "env_ok\<lparr>connect_failover := Returns (Inl ''failover unreachable'')\<rparr>"
  let ?e3 = "env_ok\<lparr>schedule := sched_serve_then_shutdown\<rparr>"
  have h1: "connect_primary ?e1 = Returns (Inl ''primary unreachable'')" by simp
  have h2: "connect_primary ?e2 = Returns (Inr ()) \<and>
            failover proxy_unix = Some ''mongodb://failover'' \<and>
            connect_failover ?e2 = Returns (Inl ''failover unreachable'')"
    by (simp add: env_ok_def proxy_unix_def)
  have h3: "ret (Run proxy_unix ?e3) = Returns None" unfolding Run_unix_serve by simp
  have h3': "ret (Run proxy_unix ?e3) \<noteq> Never" using h3 by simp
  have c3: "connect_primary ?e3 = Returns (Inr ()) \<and> failover proxy_unix \<noteq> None \<and>
            connect_failover ?e3 = Returns (Inr ())"
    by (simp add: env_ok_def proxy_unix_def)
  have a: "Run proxy_unix ?e1
           = \<lparr>events = [MongoConnect Primary], ret = Returns (Some ''primary unreachable'')\<rparr>"
    using run_startup_failures_and_release[of ?e1 "''primary unreachable''" proxy_unix
        "''mongodb://failover''"] h1 by blast
  have b: "Run proxy_unix ?e2
           = \<lparr>events = [MongoConnect Primary, MongoConnect Failover, MongoClose Primary],
              ret = Returns (Some ''failover unreachable'')\<rparr>"
    using run_startup_failures_and_release[of ?e2 "''failover unreachable''" proxy_unix
        "''mongodb://failover''"] h2 by blast
  have c: "count_list (events (Run proxy_unix ?e3)) (MongoClose Primary) = 1 \<and>
           count_list (events (Run proxy_unix ?e3)) (MongoClose Failover) = 1"
    using run_startup_failures_and_release[of ?e3 "''none''" proxy_unix
        "''mongodb://failover''"] h3' c3 by simp
  show ?thesis using a b h3 c by simp
qed



end
